theory Spec2Isabelle
  imports Complex_Main
begin

section \<open>JavaScript strings\<close>

text \<open>
  A JavaScript string is modelled as a \<open>string\<close> whose characters are the code units
  below 256. The operations below are the ones \<open>analyzers.ts\<close> and \<open>index.ts\<close> call on
  strings, restricted to that range.
\<close>

text \<open>
  \<open>is_space\<close>: the code units \<open>String.prototype.trim\<close> strips (WhiteSpace and
  LineTerminator of ECMAScript) that lie below 256: TAB, LF, VT, FF, CR, SPACE, NBSP.
\<close>

definition is_space :: "char \<Rightarrow> bool" where
  "is_space c = (c = CHR 0x09 \<or> c = CHR 0x0A \<or> c = CHR 0x0B \<or> c = CHR 0x0C \<or> c = CHR 0x0D
     \<or> c = CHR 0x20 \<or> c = CHR 0xA0)"

definition trim :: "string \<Rightarrow> string" where
  "trim s = rev (dropWhile is_space (rev (dropWhile is_space s)))"

definition startsWith :: "string \<Rightarrow> string \<Rightarrow> bool" where
  "startsWith s p = (take (length p) s = p)"

definition endsWith :: "string \<Rightarrow> string \<Rightarrow> bool" where
  "endsWith s p = (length p \<le> length s \<and> drop (length s - length p) s = p)"

text \<open>\<open>s.includes(t)\<close>: \<open>t\<close> occurs in \<open>s\<close> as a contiguous run.\<close>

fun str_includes :: "string \<Rightarrow> string \<Rightarrow> bool" where
  "str_includes [] t = (t = [])"
| "str_includes (c # s) t = (take (length t) (c # s) = t \<or> str_includes s t)"

text \<open>\<open>toLowerCase\<close> on code units below 256: A-Z, and the Latin-1 capitals but U+00D7.\<close>

definition lower_char :: "char \<Rightarrow> char" where
  "lower_char c =
     (let n = (of_char c :: nat)
      in if (65 \<le> n \<and> n \<le> 90) \<or> (192 \<le> n \<and> n \<le> 222 \<and> n \<noteq> 215)
         then char_of (n + 32) else c)"

definition toLowerCase :: "string \<Rightarrow> string" where
  "toLowerCase s = map lower_char s"

text \<open>\<open>String(n)\<close> for a non-negative integer: its decimal digits.\<close>

definition digit :: "nat \<Rightarrow> char" where
  "digit d = ''0123456789'' ! d"

fun show_nat :: "nat \<Rightarrow> string" where
  "show_nat n =
     (if n < 10 then [digit n] else show_nat (n div 10) @ [digit (n mod 10)])"

declare show_nat.simps [simp del]

text \<open>
  \<open>x.toFixed(1)\<close> for a non-negative \<open>x\<close>: the integer \<open>n\<close> with \<open>n / 10\<close> nearest to
  \<open>x\<close> (the larger one on a tie), printed with one decimal.
\<close>

definition toFixed1 :: "real \<Rightarrow> string" where
  "toFixed1 x =
     (let n = nat \<lfloor>x * 10 + 1 / 2\<rfloor>
      in show_nat (n div 10) @ ''.'' @ show_nat (n mod 10))"

section \<open>Documents as cheerio presents them\<close>

text \<open>
  \<open>cheerio.load\<close> turns a text into a tree of elements and text nodes; the selectors the
  program uses are by tag name, by attribute, and by ancestor (\<open>"sitemap loc"\<close>).
  A selection lists its elements in document order.
\<close>

datatype node = Element string "(string \<times> string) list" "node list" | Text string

fun tag :: "node \<Rightarrow> string" where
  "tag (Element t as cs) = t"
| "tag (Text s) = []"

text \<open>\<open>$(elem).attr(name)\<close>: the attribute's value, \<open>None\<close> for \<open>undefined\<close>.\<close>

fun attr :: "node \<Rightarrow> string \<Rightarrow> string option" where
  "attr (Element t as cs) name = map_of as name"
| "attr (Text s) name = None"

text \<open>\<open>$(elem).text()\<close>: the text nodes below the element, concatenated.\<close>

fun text_of :: "node \<Rightarrow> string" where
  "text_of (Text s) = s"
| "text_of (Element t as cs) = concat (map text_of cs)"

text \<open>All elements of a tree, the root first (document order).\<close>

fun elements :: "node \<Rightarrow> node list" where
  "elements (Text s) = []"
| "elements (Element t as cs) = Element t as cs # concat (map elements cs)"

text \<open>\<open>$("name")\<close> on a loaded document.\<close>

definition select_tag :: "node list \<Rightarrow> string \<Rightarrow> node list" where
  "select_tag doc name = filter (\<lambda>e. tag e = name) (concat (map elements doc))"

text \<open>\<open>$("name[a]")\<close>: the elements \<open>name\<close> that carry the attribute \<open>a\<close>.\<close>

definition select_has_attr :: "node list \<Rightarrow> string \<Rightarrow> string \<Rightarrow> node list" where
  "select_has_attr doc name a = filter (\<lambda>e. attr e a \<noteq> None) (select_tag doc name)"

text \<open>\<open>$('name[a="v"]')\<close>: the elements \<open>name\<close> whose attribute \<open>a\<close> is exactly \<open>v\<close>.\<close>

definition select_attr_eq :: "node list \<Rightarrow> string \<Rightarrow> string \<Rightarrow> string \<Rightarrow> node list" where
  "select_attr_eq doc name a v = filter (\<lambda>e. attr e a = Some v) (select_tag doc name)"

text \<open>
  \<open>$("outer inner")\<close>: the elements \<open>inner\<close> that lie below some element \<open>outer\<close>.
  \<open>below\<close> says whether an enclosing \<open>outer\<close> has been passed on the way down.
\<close>

fun descend :: "string \<Rightarrow> string \<Rightarrow> bool \<Rightarrow> node \<Rightarrow> node list" where
  "descend outer inner below (Text s) = []"
| "descend outer inner below (Element t as cs) =
     (if below \<and> t = inner then [Element t as cs] else [])
     @ concat (map (descend outer inner (below \<or> t = outer)) cs)"

definition select_descendant :: "node list \<Rightarrow> string \<Rightarrow> string \<Rightarrow> node list" where
  "select_descendant doc outer inner = concat (map (descend outer inner False) doc)"

section \<open>Issues\<close>

datatype issue_type = error | warning | info

record Issue =
  i_type :: issue_type
  i_message :: string
  i_url :: string
  i_value :: "string option"
  i_link :: "string option"

definition issue :: "issue_type \<Rightarrow> string \<Rightarrow> string \<Rightarrow> Issue" where
  "issue t m u = \<lparr>i_type = t, i_message = m, i_url = u, i_value = None, i_link = None\<rparr>"

section \<open>checkImages\<close>

text \<open>The three counters of the loop over \<open>$("img")\<close>.\<close>

record img_counters =
  missingAlt :: nat
  emptyAlt :: nat
  missingDimensions :: nat

text \<open>A JavaScript string is falsy exactly when it is \<open>undefined\<close> or empty.\<close>

definition falsy :: "string option \<Rightarrow> bool" where
  "falsy v = (v = None \<or> v = Some [])"

definition or_empty :: "string option \<Rightarrow> string" where
  "or_empty v = (case v of None \<Rightarrow> [] | Some s \<Rightarrow> s)"

text \<open>One pass of the loop body of \<open>checkImages\<close>.\<close>

definition count_img :: "img_counters \<Rightarrow> node \<Rightarrow> img_counters" where
  "count_img c img =
     (let c1 = (case attr img ''alt'' of
                  None \<Rightarrow> c\<lparr>missingAlt := missingAlt c + 1\<rparr>
                | Some alt \<Rightarrow>
                    if trim alt = [] then c\<lparr>emptyAlt := emptyAlt c + 1\<rparr> else c);
          width = attr img ''width'';
          height = attr img ''height'';
          style = or_empty (attr img ''style'')
      in if falsy width \<and> falsy height \<and> \<not> str_includes style ''width''
            \<and> \<not> str_includes style ''height''
         then c1\<lparr>missingDimensions := missingDimensions c1 + 1\<rparr>
         else c1)"

definition count_images :: "node list \<Rightarrow> img_counters" where
  "count_images images =
     foldl count_img \<lparr>missingAlt = 0, emptyAlt = 0, missingDimensions = 0\<rparr> images"

definition checkImages :: "node list \<Rightarrow> string \<Rightarrow> Issue list" where
  "checkImages doc pageUrl =
     (let c = count_images (select_tag doc ''img'')
      in (if missingAlt c > 0
          then [issue error (show_nat (missingAlt c) @ '' image(s) missing alt attribute'') pageUrl]
          else [])
       @ (if emptyAlt c > 0
          then [issue info (show_nat (emptyAlt c)
                  @ '' image(s) with empty alt (verify if decorative)'') pageUrl]
          else [])
       @ (if missingDimensions c > 0
          then [issue warning (show_nat (missingDimensions c)
                  @ '' image(s) missing width/height (may cause CLS)'') pageUrl]
          else []))"

section \<open>checkPerformance\<close>

text \<open>
  \<open>headers\<close> is the plain object \<open>fetchPage\<close> builds: a list of key and value, a later
  entry for a key replacing an earlier one.
\<close>

definition header :: "(string \<times> string) list \<Rightarrow> string \<Rightarrow> string option" where
  "header headers key = map_of (rev headers) key"

definition checkPerformance ::
  "node list \<Rightarrow> string \<Rightarrow> nat \<Rightarrow> nat \<Rightarrow> (string \<times> string) list \<Rightarrow> Issue list" where
  "checkPerformance doc pageUrl loadTime contentLength headers =
     (let sizeKb = real contentLength / 1024;
          scripts = length (select_has_attr doc ''script'' ''src'');
          stylesheets = length (select_attr_eq doc ''link'' ''rel'' ''stylesheet'');
          contentEncoding = toLowerCase (or_empty (header headers ''content-encoding''))
      in (if sizeKb > 500
          then [issue warning (''Large page size ('' @ toFixed1 sizeKb
                  @ '' KB, recommended < 500 KB)'') pageUrl]
          else [])
       @ (if loadTime > 3000
          then [issue error (''Slow load time ('' @ show_nat loadTime
                  @ ''ms, recommended < 3000ms)'') pageUrl]
          else if loadTime > 1500
          then [issue warning (''Moderate load time ('' @ show_nat loadTime
                  @ ''ms, recommended < 1500ms)'') pageUrl]
          else [])
       @ (if scripts > 15
          then [issue warning (''Many external scripts ('' @ show_nat scripts
                  @ '', consider bundling)'') pageUrl]
          else [])
       @ (if stylesheets > 5
          then [issue warning (''Many external stylesheets ('' @ show_nat stylesheets
                  @ '', consider bundling)'') pageUrl]
          else [])
       @ (if \<not> str_includes contentEncoding ''gzip'' \<and> \<not> str_includes contentEncoding ''br''
          then (if sizeKb > 10
                then [issue info ''No compression detected (gzip/brotli recommended)'' pageUrl]
                else [])
          else []))"

section \<open>The world outside the program\<close>

text \<open>
  What the program reaches through \<open>node-fetch\<close>, \<open>cheerio\<close>, the \<open>URL\<close> class and the
  task SDK is a parameter of the model: a \<open>world\<close>. The world answers the same request
  in the same way throughout one audit. A value thrown by one of them is a \<open>thrown\<close>:
  an \<open>Error\<close> object with its \<open>name\<close> and \<open>message\<close>, or something else. The retries
  that the task runner makes of a failed task are the runner's, not the program's.
\<close>

datatype thrown = ErrorObj string string | NotAnError

text \<open>\<open>reason?.message\<close> of a thrown value.\<close>

fun message_of :: "thrown \<Rightarrow> string option" where
  "message_of (ErrorObj name msg) = Some msg"
| "message_of NotAnError = None"

text \<open>\<open>x || "Unknown error"\<close>.\<close>

definition or_unknown :: "string option \<Rightarrow> string" where
  "or_unknown m = (if falsy m then ''Unknown error'' else the m)"

datatype http_method = GET | HEAD

text \<open>
  A response of \<open>fetch\<close>: its status, its headers as the \<open>Headers\<close> object lists them
  (lower-case names), what \<open>await response.text()\<close> gives (the body, or a thrown
  value), and the milliseconds that passed until the response arrived.
\<close>

record response =
  r_status :: nat
  r_headers :: "(string \<times> string) list"
  r_text :: "thrown + string"
  r_elapsed :: nat

text \<open>\<open>response.ok\<close>.\<close>

definition ok :: "response \<Rightarrow> bool" where
  "ok r = (200 \<le> r_status r \<and> r_status r \<le> 299)"

text \<open>The fields of a \<open>URL\<close> object the program reads.\<close>

record url =
  protocol :: string
  host :: string
  pathname :: string
  href :: string

text \<open>
  \<open>w_fetch m u\<close>: \<open>await safeFetch(u, {method: m, ...})\<close>, a response or the value thrown
  (a network error, the timeout's abort, the SSRF filter's refusal).
  \<open>w_load xmlMode text\<close>: \<open>cheerio.load(text, {xmlMode})\<close>.
  \<open>w_url input base\<close>: \<open>new URL(input, base)\<close>, \<open>None\<close> when it throws a TypeError.
  \<open>w_task_failure u\<close>: the message of the reason with which the run of the task
  \<open>analyze_page\<close> on \<open>u\<close> is rejected by the task runner, \<open>None\<close> when the run completes.
\<close>

record world =
  w_fetch :: "http_method \<Rightarrow> string \<Rightarrow> thrown + response"
  w_load :: "bool \<Rightarrow> string \<Rightarrow> node list"
  w_url :: "string \<Rightarrow> string option \<Rightarrow> url option"
  w_task_failure :: "string \<Rightarrow> string option option"

section \<open>fetchPage\<close>

record page_fields =
  html :: string
  headers :: "(string \<times> string) list"
  loadTime :: nat
  contentLength :: nat
  statusCode :: nat

text \<open>
  \<open>PageData\<close>: the object with only \<open>error\<close> set, or the object with the five other
  fields. Every error text \<open>fetchPage\<close> builds is non-empty, so \<open>if (pageData.error)\<close>
  tells the two apart.
\<close>

datatype PageData = PageError string | Page page_fields

definition fetch_error :: "string \<Rightarrow> thrown \<Rightarrow> PageData" where
  "fetch_error u e =
     (case e of
        ErrorObj name msg \<Rightarrow>
          if name = ''AbortError'' then PageError (''Timeout fetching '' @ u)
          else PageError (''Request error: '' @ msg)
      | NotAnError \<Rightarrow> PageError ''Unknown error'')"

definition fetchPage :: "world \<Rightarrow> string \<Rightarrow> PageData" where
  "fetchPage w u =
     (case w_fetch w GET u of
        Inl e \<Rightarrow> fetch_error u e
      | Inr r \<Rightarrow>
          (case r_text r of
             Inl e \<Rightarrow> fetch_error u e
           | Inr body \<Rightarrow>
               Page \<lparr>html = body, headers = r_headers r, loadTime = r_elapsed r,
                     contentLength = length body, statusCode = r_status r\<rparr>))"

section \<open>checkMetaTags\<close>

text \<open>\<open>$(selection).attr(name)\<close>: the attribute of the first element selected.\<close>

definition first_attr :: "node list \<Rightarrow> string \<Rightarrow> string option" where
  "first_attr sel name = (case sel of [] \<Rightarrow> None | e # es \<Rightarrow> attr e name)"

text \<open>\<open>xs.join(", ")\<close>.\<close>

fun join_comma :: "string list \<Rightarrow> string" where
  "join_comma [] = []"
| "join_comma [x] = x"
| "join_comma (x # y # ys) = x @ '', '' @ join_comma (y # ys)"

definition checkMetaTags :: "node list \<Rightarrow> string \<Rightarrow> Issue list" where
  "checkMetaTags doc pageUrl =
     (let title = trim (concat (map text_of (select_tag doc ''title'')));
          metaDesc = map_option trim
            (first_attr (select_attr_eq doc ''meta'' ''name'' ''description'') ''content'');
          ogTitle = first_attr (select_attr_eq doc ''meta'' ''property'' ''og:title'') ''content'';
          ogDesc =
            first_attr (select_attr_eq doc ''meta'' ''property'' ''og:description'') ''content'';
          ogImage = first_attr (select_attr_eq doc ''meta'' ''property'' ''og:image'') ''content'';
          missingOg = (if falsy ogTitle then [''og:title''] else [])
            @ (if falsy ogDesc then [''og:description''] else [])
            @ (if falsy ogImage then [''og:image''] else []);
          canonical = first_attr (select_attr_eq doc ''link'' ''rel'' ''canonical'') ''href''
      in (if title = [] then [issue error ''Missing page title'' pageUrl]
          else if length title < 30
          then [(issue warning (''Title too short ('' @ show_nat (length title)
                   @ '' chars, recommended 50-60)'') pageUrl)\<lparr>i_value := Some title\<rparr>]
          else if length title > 60
          then [(issue warning (''Title too long ('' @ show_nat (length title)
                   @ '' chars, recommended 50-60)'') pageUrl)
                   \<lparr>i_value := Some (take 70 title @ ''...'')\<rparr>]
          else [])
       @ (if falsy metaDesc then [issue error ''Missing meta description'' pageUrl]
          else if length (the metaDesc) < 120
          then [issue warning (''Meta description too short ('' @ show_nat (length (the metaDesc))
                   @ '' chars, recommended 150-160)'') pageUrl]
          else if length (the metaDesc) > 160
          then [issue warning (''Meta description too long ('' @ show_nat (length (the metaDesc))
                   @ '' chars, recommended 150-160)'') pageUrl]
          else [])
       @ (if length missingOg > 0
          then [issue warning (''Missing Open Graph tags: '' @ join_comma missingOg) pageUrl]
          else [])
       @ (if falsy canonical then [issue info ''No canonical URL specified'' pageUrl] else []))"

section \<open>checkLinks\<close>

text \<open>One step of the loop that collects \<open>urlsToCheck\<close>.\<close>

definition collect_link :: "world \<Rightarrow> string \<Rightarrow> string list \<Rightarrow> node \<Rightarrow> string list" where
  "collect_link w pageUrl urlsToCheck link_elem =
     (let h = attr link_elem ''href''
      in if falsy h then urlsToCheck
         else if startsWith (the h) ''#'' \<or> startsWith (the h) ''javascript:''
                 \<or> startsWith (the h) ''mailto:'' \<or> startsWith (the h) ''tel:''
         then urlsToCheck
         else (case w_url w (the h) (Some pageUrl) of
                 None \<Rightarrow> urlsToCheck
               | Some a \<Rightarrow>
                   if href a \<in> set urlsToCheck then urlsToCheck else urlsToCheck @ [href a]))"

text \<open>
  The probe of one link: HEAD, and GET when HEAD throws. \<open>Inr (url, status)\<close> is the
  fulfilled promise, \<open>Inl\<close> the rejected one with its reason.
\<close>

definition probe :: "world \<Rightarrow> string \<Rightarrow> thrown + (string \<times> nat)" where
  "probe w u =
     (case w_fetch w HEAD u of
        Inr r \<Rightarrow> Inr (u, r_status r)
      | Inl e \<Rightarrow>
          (case w_fetch w GET u of
             Inr r \<Rightarrow> Inr (u, r_status r)
           | Inl e' \<Rightarrow> Inl e'))"

definition brokenStatuses :: "nat list" where
  "brokenStatuses = [404, 410, 500, 502, 504]"

definition link_issue :: "string \<Rightarrow> thrown + (string \<times> nat) \<Rightarrow> Issue list" where
  "link_issue pageUrl res =
     (case res of
        Inr (u, st) \<Rightarrow>
          if st \<in> set brokenStatuses
          then [(issue error (''Broken link (HTTP '' @ show_nat st @ '')'') pageUrl)
                  \<lparr>i_link := Some u\<rparr>]
          else []
      | Inl reason \<Rightarrow>
          [issue error (''Link error: '' @ or_unknown (message_of reason)) pageUrl])"

definition checkLinks :: "world \<Rightarrow> node list \<Rightarrow> string \<Rightarrow> Issue list" where
  "checkLinks w doc pageUrl =
     (let links = select_has_attr doc ''a'' ''href'';
          urlsToCheck = foldl (collect_link w pageUrl) [] (take 20 links);
          results = map (probe w) (take 20 urlsToCheck)
      in concat (map (link_issue pageUrl) results))"

section \<open>checkHeadings\<close>

text \<open>\<open>[...new Set(xs)]\<close>: the first occurrence of each value, in order.\<close>

definition uniq :: "'a list \<Rightarrow> 'a list" where
  "uniq xs = rev (remdups (rev xs))"

definition checkHeadings :: "node list \<Rightarrow> string \<Rightarrow> Issue list" where
  "checkHeadings doc pageUrl =
     (let headings = concat (map (\<lambda>level.
            map (\<lambda>e. (level, trim (text_of e))) (select_tag doc (''h'' @ show_nat level)))
            [1, 2, 3, 4, 5, 6 :: nat]);
          h1Count = length (filter (\<lambda>h. fst h = 1) headings);
          levelsUsed = sort (uniq (map fst headings))
      in (if h1Count = 0 then [issue error ''Missing H1 heading'' pageUrl]
          else if h1Count > 1
          then [issue warning (''Multiple H1 headings ('' @ show_nat h1Count @ '' found)'') pageUrl]
          else [])
       @ (if length headings > 0
          then (if length levelsUsed > 0 \<and> hd levelsUsed \<noteq> 1
                then [issue warning (''First heading is H'' @ show_nat (hd levelsUsed)
                        @ '', should start with H1'') pageUrl]
                else [])
             @ concat (map (\<lambda>(a, b).
                  if b - a > 1
                  then [issue warning (''Skipped heading level: H'' @ show_nat a @ '' to H''
                          @ show_nat b) pageUrl]
                  else [])
                (zip levelsUsed (tl levelsUsed)))
          else []))"

section \<open>analyzePage\<close>

record PageResult =
  pr_url :: string
  pr_issues :: "(string \<times> Issue list) list"
  pr_load_time_ms :: "nat option"
  pr_content_length :: "nat option"
  pr_error :: "string option"

definition analyzePage :: "world \<Rightarrow> string \<Rightarrow> PageResult" where
  "analyzePage w pageUrl =
     (case fetchPage w pageUrl of
        PageError e \<Rightarrow>
          \<lparr>pr_url = pageUrl, pr_issues = [], pr_load_time_ms = None,
            pr_content_length = None, pr_error = Some e\<rparr>
      | Page pageData \<Rightarrow>
          (let doc = w_load w False (html pageData)
           in \<lparr>pr_url = pageUrl,
                pr_issues =
                  [(''meta_tags'', checkMetaTags doc pageUrl),
                   (''links'', checkLinks w doc pageUrl),
                   (''headings'', checkHeadings doc pageUrl),
                   (''images'', checkImages doc pageUrl),
                   (''performance'', checkPerformance doc pageUrl (loadTime pageData)
                      (contentLength pageData) (headers pageData))],
                pr_load_time_ms = Some (loadTime pageData),
                pr_content_length = Some (contentLength pageData),
                pr_error = None\<rparr>))"

section \<open>Discovery\<close>

subsection \<open>trySitemap\<close>

text \<open>\<open>s.replace(/\/sitemap\.xml$/, "")\<close>: the ending \<open>/sitemap.xml\<close> removed, if there.\<close>

definition strip_sitemap_xml :: "string \<Rightarrow> string" where
  "strip_sitemap_xml s =
     (if endsWith s ''/sitemap.xml'' then take (length s - length ''/sitemap.xml'') s else s)"

text \<open>
  What one call of \<open>trySitemap\<close> does before it either returns or calls itself:
  \<open>Follow b\<close> is the recursive call \<open>trySitemap(b, maxPages)\<close>, \<open>Done urls\<close> the return.
  The \<open>catch\<close> returns \<open>[]\<close> for whatever the fetch or the body throws.
\<close>

datatype sitemap_step = Follow string | Done "string list"

text \<open>The \<open>$("url loc").each\<close> loop: the trimmed texts, as long as \<open>urls.length < maxPages\<close>.\<close>

definition regular_sitemap :: "node list \<Rightarrow> int \<Rightarrow> string list" where
  "regular_sitemap doc maxPages =
     take (nat maxPages) (map (\<lambda>e. trim (text_of e)) (select_descendant doc ''url'' ''loc''))"

definition sitemap_step :: "world \<Rightarrow> string \<Rightarrow> int \<Rightarrow> sitemap_step" where
  "sitemap_step w baseUrl maxPages =
     (let sitemapUrl = baseUrl @ ''/sitemap.xml''
      in case w_fetch w GET sitemapUrl of
           Inl e \<Rightarrow> Done []
         | Inr r \<Rightarrow>
             if \<not> ok r then Done []
             else (case r_text r of
                     Inl e \<Rightarrow> Done []
                   | Inr xml \<Rightarrow>
                       (let doc = w_load w True xml
                        in case select_descendant doc ''sitemap'' ''loc'' of
                             [] \<Rightarrow> Done (regular_sitemap doc maxPages)
                           | first # others \<Rightarrow>
                               (let subSitemapUrl = trim (text_of first)
                                in if subSitemapUrl \<noteq> []
                                   then Follow (strip_sitemap_xml subSitemapUrl)
                                   else Done (regular_sitemap doc maxPages)))))"

text \<open>
  \<open>trySitemap\<close> follows sitemap indexes for as long as it meets them; \<open>None\<close> is the
  call that never returns.
\<close>

partial_function (option) trySitemap :: "world \<Rightarrow> string \<Rightarrow> int \<Rightarrow> string list option" where
  "trySitemap w baseUrl maxPages =
     (case sitemap_step w baseUrl maxPages of
        Done urls \<Rightarrow> Some urls
      | Follow b \<Rightarrow> trySitemap w b maxPages)"

declare trySitemap.simps [code]

subsection \<open>crawlLinks\<close>

definition cleanUrl :: "url \<Rightarrow> string" where
  "cleanUrl a = protocol a @ ''//'' @ host a @ pathname a"

text \<open>The body of \<open>$("a[href]").each\<close>: one anchor, and the queue it may extend.\<close>

definition enqueue_link ::
  "world \<Rightarrow> string \<Rightarrow> string \<Rightarrow> string set \<Rightarrow> string list \<Rightarrow> node \<Rightarrow> string list" where
  "enqueue_link w pageUrl baseHost visited toVisit elem =
     (let h = attr elem ''href''
      in if falsy h then toVisit
         else (case w_url w (the h) (Some pageUrl) of
                 None \<Rightarrow> toVisit
               | Some absoluteUrl \<Rightarrow>
                   if host absoluteUrl = baseHost
                   then (if cleanUrl absoluteUrl \<notin> visited \<and> cleanUrl absoluteUrl \<notin> set toVisit
                         then toVisit @ [cleanUrl absoluteUrl] else toVisit)
                   else toVisit))"

text \<open>
  The \<open>try\<close> block of the loop for one URL taken from the queue. \<open>None\<close>: the URL is not
  recorded (the fetch threw, the response was not ok or not HTML). \<open>Some q\<close>: the URL is
  pushed on \<open>foundUrls\<close> and the queue becomes \<open>q\<close>; when reading the body throws, the
  URL is already recorded and the queue is as it was.
\<close>

definition crawl_visit ::
  "world \<Rightarrow> string \<Rightarrow> string set \<Rightarrow> string list \<Rightarrow> string \<Rightarrow> string list option" where
  "crawl_visit w baseHost visited toVisit pageUrl =
     (case w_fetch w GET pageUrl of
        Inl e \<Rightarrow> None
      | Inr r \<Rightarrow>
          if \<not> ok r then None
          else if \<not> str_includes (or_empty (map_of (r_headers r) ''content-type'')) ''text/html''
          then None
          else (case r_text r of
                  Inl e \<Rightarrow> Some toVisit
                | Inr body \<Rightarrow>
                    Some (foldl (enqueue_link w pageUrl baseHost visited) toVisit
                            (select_has_attr (w_load w False body) ''a'' ''href''))))"

text \<open>The \<open>while\<close> loop of \<open>crawlLinks\<close> over \<open>visited\<close>, \<open>toVisit\<close> and \<open>foundUrls\<close>.\<close>

function crawl_loop ::
  "world \<Rightarrow> string \<Rightarrow> int \<Rightarrow> string set \<Rightarrow> string list \<Rightarrow> string list \<Rightarrow> string list" where
  "crawl_loop w baseHost maxPages visited toVisit foundUrls =
     (case toVisit of
        [] \<Rightarrow> foundUrls
      | u # rest \<Rightarrow>
          if \<not> int (length foundUrls) < maxPages then foundUrls
          else if u = [] then crawl_loop w baseHost maxPages visited rest foundUrls
          else if u \<in> visited then crawl_loop w baseHost maxPages visited rest foundUrls
          else (case crawl_visit w baseHost (insert u visited) rest u of
                  None \<Rightarrow> crawl_loop w baseHost maxPages (insert u visited) rest foundUrls
                | Some q \<Rightarrow>
                    crawl_loop w baseHost maxPages (insert u visited) q (foundUrls @ [u])))"
  by pat_completeness auto
termination
  by (relation "measures [\<lambda>(w, baseHost, maxPages, visited, toVisit, foundUrls).
                    nat (maxPages - int (length foundUrls)),
                  \<lambda>(w, baseHost, maxPages, visited, toVisit, foundUrls). length toVisit]")
     auto

declare crawl_loop.simps [simp del]

text \<open>
  \<open>clean_link w h x\<close>: \<open>x\<close> is the \<open>cleanUrl\<close> (scheme, host and path; no query, no
  fragment) of a URL on host \<open>h\<close> that \<open>new URL(href, page)\<close> made of some reference.
\<close>

definition clean_link :: "world \<Rightarrow> string \<Rightarrow> string \<Rightarrow> bool" where
  "clean_link w h x =
     (\<exists>hr page a. w_url w hr (Some page) = Some a \<and> host a = h \<and> x = cleanUrl a)"

definition invalid_url :: thrown where
  "invalid_url = ErrorObj ''TypeError'' ''Invalid URL''"

definition crawlLinks :: "world \<Rightarrow> string \<Rightarrow> string \<Rightarrow> int \<Rightarrow> thrown + string list" where
  "crawlLinks w startUrl baseUrl maxPages =
     (case w_url w baseUrl None of
        None \<Rightarrow> Inl invalid_url
      | Some b \<Rightarrow> Inr (crawl_loop w (host b) maxPages {} [startUrl] []))"

subsection \<open>discoverPages\<close>

text \<open>\<open>xs.slice(0, e)\<close> for an integer \<open>e\<close>; a negative \<open>e\<close> counts from the end.\<close>

definition slice0 :: "'a list \<Rightarrow> int \<Rightarrow> 'a list" where
  "slice0 xs e = (if e < 0 then take (nat (int (length xs) + e)) xs else take (nat e) xs)"

text \<open>
  \<open>Inl\<close> is the rejection of the promise (\<open>new URL\<close> threw), \<open>None\<close> the call that never
  returns.
\<close>

definition discoverPages :: "world \<Rightarrow> string \<Rightarrow> int \<Rightarrow> (thrown + string list) option" where
  "discoverPages w rootUrl maxPages =
     (case w_url w rootUrl None of
        None \<Rightarrow> Some (Inl invalid_url)
      | Some u \<Rightarrow>
          (let baseUrl = protocol u @ ''//'' @ host u
           in case trySitemap w baseUrl maxPages of
                None \<Rightarrow> None
              | Some sitemapUrls \<Rightarrow>
                  if length sitemapUrls > 0 then Some (Inr (slice0 sitemapUrls maxPages))
                  else Some (crawlLinks w rootUrl baseUrl maxPages)))"

section \<open>The workflow\<close>

subsection \<open>processBatches\<close>

text \<open>
  A settled promise: \<open>fulfilled\<close> with its value, or \<open>rejected\<close> with \<open>reason?.message\<close>.
\<close>

datatype 'r settled = fulfilled 'r | rejected "string option"

text \<open>
  The \<open>for\<close> loop of \<open>processBatches\<close>, with its index \<open>i\<close> and the \<open>results\<close> so far;
  \<open>on_batch\<close> is what a round appends for its batch \<open>items.slice(i, i + batchSize)\<close>.
  With \<open>batchSize = 0\<close> the index never moves; \<open>None\<close> is the loop that never ends.
\<close>

partial_function (option) batch_loop ::
  "'t list \<Rightarrow> nat \<Rightarrow> ('t list \<Rightarrow> 'x list) \<Rightarrow> nat \<Rightarrow> 'x list \<Rightarrow> 'x list option" where
  "batch_loop items batchSize on_batch i results =
     (if i < length items
      then batch_loop items batchSize on_batch (i + batchSize)
             (results @ on_batch (take batchSize (drop i items)))
      else Some results)"

declare batch_loop.simps [code]

text \<open>
  \<open>await Promise.allSettled(batch.map((item) => Promise.resolve(processor(item))))\<close>:
  the outcomes of the batch, in the order of the batch.
\<close>

definition allSettled :: "('t \<Rightarrow> 'r settled) \<Rightarrow> 't list \<Rightarrow> 'r settled list" where
  "allSettled processor batch = map processor batch"

definition processBatches ::
  "'t list \<Rightarrow> nat \<Rightarrow> ('t \<Rightarrow> 'r settled) \<Rightarrow> 'r settled list option" where
  "processBatches items batchSize processor =
     batch_loop items batchSize (allSettled processor) 0 []"


subsection \<open>audit_site\<close>

record failed_page =
  fp_url :: string
  fp_error :: string

record AuditResult =
  a_url :: string
  pages_analyzed :: nat
  failed_pages :: "failed_page list"
  total_issues :: nat
  issues_by_category :: "(string \<times> nat) list"
  results :: "PageResult list"

text \<open>
  The promise of the task \<open>analyze_page\<close> on one URL: rejected when the task runner
  fails the run, fulfilled with what \<open>analyzePage\<close> returns otherwise.
\<close>

definition analyze_page_task :: "world \<Rightarrow> string \<Rightarrow> PageResult settled" where
  "analyze_page_task w pageUrl =
     (case w_task_failure w pageUrl of
        Some reason \<Rightarrow> rejected reason
      | None \<Rightarrow> fulfilled (analyzePage w pageUrl))"

text \<open>The \<open>results.forEach\<close> that sorts the outcomes into the two lists.\<close>

definition successfulResults :: "'r settled list \<Rightarrow> 'r list" where
  "successfulResults rs = concat (map (\<lambda>r. case r of fulfilled v \<Rightarrow> [v] | rejected m \<Rightarrow> []) rs)"

definition failedPages :: "string list \<Rightarrow> 'r settled list \<Rightarrow> failed_page list" where
  "failedPages pages rs =
     concat (map (\<lambda>(index, r). case r of
                    fulfilled v \<Rightarrow> []
                  | rejected m \<Rightarrow> [\<lparr>fp_url = pages ! index, fp_error = or_unknown m\<rparr>])
               (zip [0 ..< length rs] rs))"

definition categories :: "string list" where
  "categories = [''meta_tags'', ''links'', ''headings'', ''images'', ''performance'']"

text \<open>\<open>allIssues\<close> after the loop over the successful results.\<close>

definition allIssues :: "PageResult list \<Rightarrow> (string \<times> Issue list) list" where
  "allIssues rs =
     map (\<lambda>category.
            (category,
             concat (map (\<lambda>r. case map_of (pr_issues r) category of
                                None \<Rightarrow> [] | Some is \<Rightarrow> is) rs)))
         categories"

definition aggregate :: "string \<Rightarrow> string list \<Rightarrow> PageResult settled list \<Rightarrow> AuditResult" where
  "aggregate u pages rs =
     (let successful = successfulResults rs;
          failed = failedPages pages rs;
          issues = allIssues successful;
          totalIssues = foldl (\<lambda>sum is. sum + length is) 0 (map snd issues)
      in \<lparr>a_url = u, pages_analyzed = length successful, failed_pages = failed,
           total_issues = totalIssues,
           issues_by_category = map (\<lambda>(k, v). (k, length v)) issues,
           results = successful\<rparr>)"

definition audit_site :: "world \<Rightarrow> string \<Rightarrow> int \<Rightarrow> int \<Rightarrow> (thrown + AuditResult) option" where
  "audit_site w u maxPages maxConcurrency =
     (let cappedMaxPages = min maxPages 100;
          cappedConcurrency = min (max maxConcurrency 1) 50
      in case discoverPages w u cappedMaxPages of
           None \<Rightarrow> None
         | Some (Inl e) \<Rightarrow> Some (Inl e)
         | Some (Inr pages) \<Rightarrow>
             if length pages = 0
             then Some (Inr \<lparr>a_url = u, pages_analyzed = 0, failed_pages = [], total_issues = 0,
                            issues_by_category = [], results = []\<rparr>)
             else (case processBatches pages (nat cappedConcurrency) (analyze_page_task w) of
                     None \<Rightarrow> None
                   | Some rs \<Rightarrow> Some (Inr (aggregate u pages rs))))"

subsection \<open>The schedule of processBatches\<close>

text \<open>
  When the analyses start and settle. \<open>Start j\<close>: \<open>batch.map\<close> calls the processor on
  \<open>items[j]\<close>. \<open>Settle j\<close>: the promise of that call settles.
\<close>

datatype event = Start nat | Settle nat

text \<open>
  \<open>batch_run todo pending t\<close>: with the calls for the indices \<open>todo\<close> still to be made and
  the promises \<open>pending\<close> not yet settled, \<open>t\<close> is a possible sequence of events up to the
  moment \<open>await Promise.allSettled(...)\<close> resumes. The calls are made in the order of the
  batch; a pending promise may settle at any moment, in any order.
\<close>

inductive batch_run :: "nat list \<Rightarrow> nat set \<Rightarrow> event list \<Rightarrow> bool" where
  all_settled: "batch_run [] {} []"
| call: "batch_run todo (insert j pending) t \<Longrightarrow> batch_run (j # todo) pending (Start j # t)"
| settle: "j \<in> pending \<Longrightarrow> batch_run todo (pending - {j}) t
    \<Longrightarrow> batch_run todo pending (Settle j # t)"

text \<open>
  \<open>schedule n batchSize i t\<close>: \<open>t\<close> is a possible sequence of events of the \<open>for\<close> loop of
  \<open>processBatches\<close> from index \<open>i\<close> on, over \<open>n\<close> items. The batch of one round is
  \<open>items.slice(i, i + batchSize)\<close>, the indices from \<open>i\<close> up to \<open>min (i + batchSize) n\<close>.
\<close>

inductive schedule :: "nat \<Rightarrow> nat \<Rightarrow> nat \<Rightarrow> event list \<Rightarrow> bool" where
  loop_exit: "\<not> i < n \<Longrightarrow> schedule n batchSize i []"
| loop_round: "i < n \<Longrightarrow> batch_run [i ..< min (i + batchSize) n] {} t1
    \<Longrightarrow> schedule n batchSize (i + batchSize) t2 \<Longrightarrow> schedule n batchSize i (t1 @ t2)"

text \<open>The analyses in flight after a sequence of events: started and not yet settled.\<close>

definition in_flight_step :: "nat set \<Rightarrow> event \<Rightarrow> nat set" where
  "in_flight_step s e = (case e of Start j \<Rightarrow> insert j s | Settle j \<Rightarrow> s - {j})"

definition in_flight :: "event list \<Rightarrow> nat set" where
  "in_flight t = foldl in_flight_step {} t"

section \<open>Sites to run the program on\<close>

text \<open>
  A reader of URLs for the sites below: absolute \<open>http\<close> and \<open>https\<close> URLs and references
  that start with \<open>/\<close>, split as \<open>new URL\<close> splits them; it refuses everything else.
\<close>

definition path_end :: "char \<Rightarrow> bool" where
  "path_end c = (c = CHR ''?'' \<or> c = CHR ''#'')"

definition host_end :: "char \<Rightarrow> bool" where
  "host_end c = (c = CHR ''/'' \<or> path_end c)"

definition parse_absolute :: "string \<Rightarrow> url option" where
  "parse_absolute s =
     (if startsWith s ''https://'' \<or> startsWith s ''http://''
      then (let scheme = takeWhile (\<lambda>c. c \<noteq> CHR '':'') s;
                rest = drop (length scheme + 3) s;
                h = takeWhile (\<lambda>c. \<not> host_end c) rest;
                after = dropWhile (\<lambda>c. \<not> host_end c) rest;
                p = takeWhile (\<lambda>c. \<not> path_end c) after;
                query = dropWhile (\<lambda>c. \<not> path_end c) after;
                path = (if p = [] then ''/'' else p)
            in if h = [] then None
               else Some \<lparr>protocol = scheme @ '':'', host = h, pathname = path,
                          href = scheme @ ''://'' @ h @ path @ query\<rparr>)
      else None)"

definition simple_url :: "string \<Rightarrow> string option \<Rightarrow> url option" where
  "simple_url input base =
     (case parse_absolute input of
        Some a \<Rightarrow> Some a
      | None \<Rightarrow>
          (case base of
             None \<Rightarrow> None
           | Some b \<Rightarrow>
               (case parse_absolute b of
                  None \<Rightarrow> None
                | Some bu \<Rightarrow>
                    if startsWith input ''/''
                    then parse_absolute (protocol bu @ ''//'' @ host bu @ input)
                    else None)))"

definition loc :: "string \<Rightarrow> node" where
  "loc s = Element ''loc'' [] [Text s]"

definition urlset :: "string list \<Rightarrow> node list" where
  "urlset locs = [Element ''urlset'' [] (map (\<lambda>s. Element ''url'' [] [loc s]) locs)]"

definition sitemapindex :: "string list \<Rightarrow> node list" where
  "sitemapindex locs =
     [Element ''sitemapindex'' [] (map (\<lambda>s. Element ''sitemap'' [] [loc s]) locs)]"

definition anchor :: "string \<Rightarrow> node" where
  "anchor h = Element ''a'' [(''href'', h)] [Text ''link'']"

definition html_page :: "node list \<Rightarrow> node list" where
  "html_page body = [Element ''html'' [] [Element ''head'' [] [], Element ''body'' [] body]]"

text \<open>
  The documents of the sites, by the text served: what \<open>cheerio.load\<close> makes of each.
\<close>

definition documents :: "(string \<times> node list) list" where
  "documents =
     [(''<urlset>a,other</urlset>'', urlset [''https://example.com/a'', ''https://other.org/b'']),
      (''<urlset>a,a</urlset>'', urlset [''https://example.com/a'', ''https://example.com/a'']),
      (''<urlset>p1,p2,p3</urlset>'',
         urlset [''https://example.com/p1'', ''https://example.com/p2'',
                 ''https://example.com/p3'']),
      (''<sitemapindex>pages</sitemapindex>'',
         sitemapindex [''https://example.com/sitemap-pages.xml'']),
      (''<html>root</html>'',
         html_page [anchor ''/about?x=1#top'', anchor ''https://other.org/'', anchor ''/about'']),
      (''<html>about</html>'', html_page [anchor ''/?q=1''])]"

definition load_document :: "bool \<Rightarrow> string \<Rightarrow> node list" where
  "load_document xmlMode s = (case map_of documents s of None \<Rightarrow> [] | Some d \<Rightarrow> d)"

definition served :: "nat \<Rightarrow> string \<Rightarrow> string \<Rightarrow> thrown + response" where
  "served st ctype body =
     Inr \<lparr>r_status = st, r_headers = [(''content-type'', ctype)], r_text = Inr body,
          r_elapsed = 120\<rparr>"

definition refused :: "thrown + response" where
  "refused = Inl (ErrorObj ''FetchError'' ''connect ECONNREFUSED'')"

definition site :: "(string \<times> (thrown + response)) list \<Rightarrow> world" where
  "site pages =
     \<lparr>w_fetch = (\<lambda>m u. case map_of pages u of None \<Rightarrow> refused | Some r \<Rightarrow> r),
      w_load = load_document, w_url = simple_url, w_task_failure = (\<lambda>u. None)\<rparr>"

text \<open>A sitemap with one page of the site and one of another host; no page answers.\<close>

definition site_unreachable_pages :: world where
  "site_unreachable_pages =
     site [(''https://example.com/sitemap.xml'',
            served 200 ''application/xml'' ''<urlset>a,other</urlset>'')]"

text \<open>Nothing answers at all.\<close>

definition site_down :: world where
  "site_down = site []"

text \<open>
  A sitemap index whose sub-sitemap, with three pages, is at \<open>/sitemap-pages.xml\<close>; the
  server answers 404 elsewhere.
\<close>

definition not_found :: "thrown + response" where
  "not_found = served 404 ''text/html'' ''Not Found''"

definition site_with_index :: world where
  "site_with_index =
     \<lparr>w_fetch = (\<lambda>m u.
         if u = ''https://example.com/sitemap.xml''
         then served 200 ''application/xml'' ''<sitemapindex>pages</sitemapindex>''
         else if u = ''https://example.com/sitemap-pages.xml''
         then served 200 ''application/xml'' ''<urlset>p1,p2,p3</urlset>''
         else not_found),
      w_load = load_document, w_url = simple_url, w_task_failure = (\<lambda>u. None)\<rparr>"

text \<open>A sitemap that lists one page twice.\<close>

definition site_repeating_sitemap :: world where
  "site_repeating_sitemap =
     site [(''https://example.com/sitemap.xml'',
            served 200 ''application/xml'' ''<urlset>a,a</urlset>'')]"

text \<open>
  No sitemap; the root page links to \<open>/about\<close> twice and to another host, \<open>/about\<close>
  links back to the root.
\<close>

definition site_without_sitemap :: world where
  "site_without_sitemap =
     site [(''https://example.com/?q=1'', served 200 ''text/html; charset=utf-8'' ''<html>root</html>''),
           (''https://example.com/about'', served 200 ''text/html'' ''<html>about</html>''),
           (''https://example.com/'', served 200 ''text/html'' ''<html>root</html>'')]"



section \<open>Strings: facts\<close>

lemma trim_all_space:
  assumes "\<forall>c\<in>set s. is_space c"
  shows "trim s = []"
proof -
  have d: "dropWhile is_space s = []"
    using assms by (induction s) auto
  show ?thesis
    unfolding trim_def d by simp
qed

section \<open>checkImages: the alt counters\<close>

lemma emptyAlt_count_img:
  "emptyAlt (count_img c i) =
     emptyAlt c + (if \<exists>a. attr i ''alt'' = Some a \<and> trim a = [] then 1 else 0)"
  by (auto simp: count_img_def Let_def split: option.splits)

lemma missingAlt_count_img:
  "missingAlt (count_img c i) = missingAlt c + (if attr i ''alt'' = None then 1 else 0)"
  by (auto simp: count_img_def Let_def split: option.splits)

lemma emptyAlt_foldl:
  "emptyAlt (foldl count_img c imgs) =
     emptyAlt c + length (filter (\<lambda>i. \<exists>a. attr i ''alt'' = Some a \<and> trim a = []) imgs)"
  by (induction imgs arbitrary: c) (simp_all add: emptyAlt_count_img)

lemma missingAlt_foldl:
  "missingAlt (foldl count_img c imgs) =
     missingAlt c + length (filter (\<lambda>i. attr i ''alt'' = None) imgs)"
  by (induction imgs arbitrary: c) (simp_all add: missingAlt_count_img)

text \<open>
  C10. An \<open><img>\<close> whose \<open>alt\<close> attribute is present and holds only whitespace adds one
  to the empty-alt counter of \<open>checkImages\<close> and nothing to the missing-alt counter,
  wherever it stands among the images of the page.
\<close>

theorem whitespace_alt_counts_as_empty:
  assumes "attr img ''alt'' = Some a" and "\<forall>c\<in>set a. is_space c"
  shows "emptyAlt (count_images (before @ img # after))
           = emptyAlt (count_images (before @ after)) + 1
       \<and> missingAlt (count_images (before @ img # after))
           = missingAlt (count_images (before @ after))"
  using assms trim_all_space [of a]
  by (simp add: count_images_def emptyAlt_foldl missingAlt_foldl emptyAlt_count_img
      missingAlt_count_img)

text \<open>
  C10 at a page of two images, the first without \<open>alt\<close>, the second with an \<open>alt\<close> of a
  space and a tab: one image counts as missing, one as empty; and the issue
  \<open>checkImages\<close> reports for such an image alone.
\<close>

theorem whitespace_alt_counts_as_empty_witness:
  "emptyAlt (count_images [Element ''img'' [(''src'', ''a.png'')] [],
                           Element ''img'' [(''alt'', [CHR '' '', CHR 0x09])] []]) = 1
   \<and> missingAlt (count_images [Element ''img'' [(''src'', ''a.png'')] [],
                           Element ''img'' [(''alt'', [CHR '' '', CHR 0x09])] []]) = 1
   \<and> checkImages [Element ''img'' [(''alt'', [CHR '' '', CHR 0x09]), (''width'', ''10'')] []]
        ''https://example.com/test''
       = [issue info ''1 image(s) with empty alt (verify if decorative)''
            ''https://example.com/test'']"
proof -
  have "emptyAlt (count_images ([Element ''img'' [(''src'', ''a.png'')] []] @ [])) = 0"
    by (simp add: count_images_def count_img_def falsy_def or_empty_def)
  moreover have
    "missingAlt (count_images ([Element ''img'' [(''src'', ''a.png'')] []] @ [])) = 1"
    by (simp add: count_images_def count_img_def falsy_def or_empty_def)
  moreover have
    "checkImages [Element ''img'' [(''alt'', [CHR '' '', CHR 0x09]), (''width'', ''10'')] []]
        ''https://example.com/test''
       = [issue info ''1 image(s) with empty alt (verify if decorative)''
            ''https://example.com/test'']"
    by (simp add: checkImages_def select_tag_def count_images_def count_img_def falsy_def
        or_empty_def trim_def is_space_def show_nat.simps digit_def)
  ultimately show ?thesis
    using whitespace_alt_counts_as_empty
      [of "Element ''img'' [(''alt'', [CHR '' '', CHR 0x09])] []" "[CHR '' '', CHR 0x09]"
          "[Element ''img'' [(''src'', ''a.png'')] []]" "[]"]
    by (simp add: is_space_def)
qed

section \<open>checkPerformance: a slow and large page\<close>




section \<open>processBatches: batches and outcomes\<close>

lemma batch_loop_batches:
  assumes "0 < bs"
  shows "\<exists>bl. batch_loop (items :: 't list) bs (\<lambda>b. [b]) i acc = Some (acc @ bl)
           \<and> concat bl = drop i items
           \<and> (\<forall>b\<in>set bl. 0 < length b \<and> length b \<le> bs)
           \<and> (\<forall>b\<in>set (butlast bl). length b = bs)
           \<and> (\<forall>(f :: 't list \<Rightarrow> 'x list) acc'.
                 batch_loop items bs f i acc' = Some (acc' @ concat (map f bl)))"
proof (induction "length items - i" arbitrary: i acc rule: less_induct)
  case less
  show ?case
  proof (cases "i < length items")
    case True
    define b where "b = take bs (drop i items)"
    have "length items - (i + bs) < length items - i"
      using True assms by arith
    from less [OF this, of "acc @ [b]"] have "\<exists>bl. batch_loop items bs (\<lambda>b. [b]) (i + bs) (acc @ [b]) = Some ((acc @ [b]) @ bl)
           \<and> concat bl = drop (i + bs) items
           \<and> (\<forall>b\<in>set bl. 0 < length b \<and> length b \<le> bs)
           \<and> (\<forall>b\<in>set (butlast bl). length b = bs)
           \<and> (\<forall>(f :: 't list \<Rightarrow> 'x list) acc'. batch_loop items bs f (i + bs) acc' = Some (acc' @ concat (map f bl)))" .
    then obtain bl where
      run: "batch_loop items bs (\<lambda>b. [b]) (i + bs) (acc @ [b]) = Some ((acc @ [b]) @ bl)"
      and cat: "concat bl = drop (i + bs) items"
      and len: "\<forall>b\<in>set bl. 0 < length b \<and> length b \<le> bs"
      and full: "\<forall>b\<in>set (butlast bl). length b = bs"
      and any: "\<forall>(f :: 't list \<Rightarrow> 'x list) acc'. batch_loop items bs f (i + bs) acc' = Some (acc' @ concat (map f bl))"
      by (elim exE conjE)
    have split: "b @ drop (i + bs) items = drop i items"
      unfolding b_def by (metis add.commute append_take_drop_id drop_drop)
    have blen: "0 < length b \<and> length b \<le> bs"
      using True assms by (simp add: b_def)
    have bfull: "bl \<noteq> [] \<Longrightarrow> length b = bs"
    proof -
      assume "bl \<noteq> []"
      then obtain x where "x \<in> set bl" by (cases bl) auto
      with len have "0 < length x" by blast
      with \<open>x \<in> set bl\<close> have "concat bl \<noteq> []" by auto
      with cat have "i + bs < length items" by simp
      then show "length b = bs" by (simp add: b_def)
    qed
    have 1: "batch_loop items bs (\<lambda>b. [b]) i acc = Some (acc @ (b # bl))"
      using True run by (subst batch_loop.simps) (simp add: b_def)
    have 2: "concat (b # bl) = drop i items"
      using cat split by simp
    have 3: "\<forall>x\<in>set (b # bl). 0 < length x \<and> length x \<le> bs"
      using len blen by simp
    have 4: "\<forall>x\<in>set (butlast (b # bl)). length x = bs"
      using full bfull by simp
    have 5: "\<forall>(f :: 't list \<Rightarrow> 'x list) acc'. batch_loop items bs f i acc' = Some (acc' @ concat (map f (b # bl)))"
    proof (intro allI)
      fix f :: "'t list \<Rightarrow> 'x list" and acc'
      have "batch_loop items bs f (i + bs) (acc' @ f b) = Some ((acc' @ f b) @ concat (map f bl))"
        using any by (elim allE)
      then show "batch_loop items bs f i acc' = Some (acc' @ concat (map f (b # bl)))"
        using True by (subst batch_loop.simps) (simp add: b_def)
    qed
    show ?thesis
      by (rule exI [of _ "b # bl"]) (intro conjI 1 2 3 4 5)
  next
    case False
    have "batch_loop items bs (\<lambda>b. [b]) i acc = Some (acc @ [])"
      using False by (subst batch_loop.simps) simp
    moreover have "\<forall>(f :: 't list \<Rightarrow> 'x list) acc'. batch_loop items bs f i acc' = Some (acc' @ concat (map f []))"
      using False by (subst batch_loop.simps) simp
    ultimately show ?thesis
      using False by (intro exI [of _ "[]"]) simp
  qed
qed

section \<open>audit_site: the report\<close>

lemma allSettled_map: "allSettled proc = map proc"
  by (rule ext) (simp add: allSettled_def)

lemma processBatches_total:
  assumes "0 < bs"
  shows "processBatches (items :: 't list) bs (proc :: 't \<Rightarrow> 'r settled) = Some (map proc items)"
proof -
  from batch_loop_batches [OF assms, of items 0 "[]"] obtain bl where
    cat: "concat bl = drop 0 items"
    and any: "\<forall>(f :: 't list \<Rightarrow> 'r settled list) acc'.
                batch_loop items bs f 0 acc' = Some (acc' @ concat (map f bl))"
    by (elim exE conjE)
  have "processBatches items bs proc = Some (concat (map (allSettled proc) bl))"
    using any by (simp add: processBatches_def)
  also have "concat (map (allSettled proc) bl) = map proc (concat bl)"
    by (simp add: allSettled_map map_concat)
  finally show ?thesis
    using cat by simp
qed

lemma successfulResults_map:
  "successfulResults (map proc xs) =
     concat (map (\<lambda>x. case proc x of fulfilled v \<Rightarrow> [v] | rejected m \<Rightarrow> []) xs)"
  by (simp add: successfulResults_def comp_def)

lemma failedPages_map:
  "failedPages pages (map proc pages) =
     concat (map (\<lambda>x. case proc x of
                         fulfilled v \<Rightarrow> []
                       | rejected m \<Rightarrow> [\<lparr>fp_url = x, fp_error = or_unknown m\<rparr>]) pages)"
proof -
  let ?g = "\<lambda>x. case proc x of
                  fulfilled v \<Rightarrow> []
                | rejected m \<Rightarrow> [\<lparr>fp_url = x, fp_error = or_unknown m\<rparr>]"
  have "zip [0 ..< length pages] (map proc pages)
      = map (\<lambda>i. (i, proc (pages ! i))) [0 ..< length pages]"
    by (rule nth_equalityI) simp_all
  then have "failedPages pages (map proc pages) = concat (map (\<lambda>i. ?g (pages ! i)) [0 ..< length pages])"
    by (simp add: failedPages_def comp_def)
  also have "map (\<lambda>i. ?g (pages ! i)) [0 ..< length pages] = map ?g (map (nth pages) [0 ..< length pages])"
    by (simp add: comp_def)
  also have "map (nth pages) [0 ..< length pages] = pages"
    by (rule map_nth)
  finally show ?thesis .
qed

lemma foldl_add_length:
  "foldl (\<lambda>sum is. sum + length is) a xs = a + sum_list (map length xs)"
  by (induction xs arbitrary: a) simp_all

lemma aggregate_total:
  "total_issues (aggregate u pages rs) = sum_list (map snd (issues_by_category (aggregate u pages rs)))"
  by (simp add: aggregate_def Let_def foldl_add_length comp_def case_prod_beta)

lemma aggregate_keys:
  "map fst (issues_by_category (aggregate u pages rs)) = categories"
  by (simp add: aggregate_def Let_def allIssues_def comp_def case_prod_beta)

lemma capped_concurrency: "0 < nat (min (max c 1) 50)"
  by simp

text \<open>
  C2, as the program has it. Whenever discovery returns its list of pages, the audit
  returns a result whose \<open>total_issues\<close> is the sum of the counts in
  \<open>issues_by_category\<close>. When at least one page was discovered the keys of
  \<open>issues_by_category\<close> are the five categories, in their order; when none was, the
  result is the one written out in the early return, where \<open>issues_by_category\<close> has
  no key.
\<close>

theorem audit_issue_totals:
  assumes "discoverPages w u (min maxPages 100) = Some (Inr pages)"
  shows "\<exists>r. audit_site w u maxPages maxConcurrency = Some (Inr r)
           \<and> total_issues r = sum_list (map snd (issues_by_category r))
           \<and> map fst (issues_by_category r) = (if pages = [] then [] else categories)"
  using assms processBatches_total [OF capped_concurrency, of pages maxConcurrency "analyze_page_task w"]
  by (simp add: audit_site_def Let_def aggregate_total aggregate_keys)

lemma analyzePage_fetch_throws:
  assumes "w_fetch w GET p = Inl e"
  shows "\<exists>m. analyzePage w p = \<lparr>pr_url = p, pr_issues = [], pr_load_time_ms = None,
            pr_content_length = None, pr_error = Some m\<rparr>"
  using assms
  by (simp add: analyzePage_def fetchPage_def fetch_error_def split: thrown.splits)

lemma all_run_successful:
  assumes "\<forall>p\<in>set pages. w_task_failure w p = None"
  shows "successfulResults (map (analyze_page_task w) pages) = map (analyzePage w) pages
       \<and> failedPages pages (map (analyze_page_task w) pages) = []"
proof -
  have "\<forall>p\<in>set pages. analyze_page_task w p = fulfilled (analyzePage w p)"
    using assms by (simp add: analyze_page_task_def)
  then have "concat (map (\<lambda>x. case analyze_page_task w x of fulfilled v \<Rightarrow> [v]
                                | rejected m \<Rightarrow> []) pages) = map (analyzePage w) pages"
    and "concat (map (\<lambda>x. case analyze_page_task w x of fulfilled v \<Rightarrow> []
           | rejected m \<Rightarrow> [\<lparr>fp_url = x, fp_error = or_unknown m\<rparr>]) pages) = []"
    by (induction pages) simp_all
  then show ?thesis
    by (simp add: successfulResults_map failedPages_map)
qed

lemma all_fail_successful:
  assumes "\<forall>p\<in>set pages. \<exists>e. w_fetch w GET p = Inl e"
    and "\<forall>p\<in>set pages. w_task_failure w p = None"
  shows "map pr_url (successfulResults (map (analyze_page_task w) pages)) = pages
       \<and> (\<forall>x\<in>set (successfulResults (map (analyze_page_task w) pages)).
             pr_error x \<noteq> None \<and> pr_issues x = [])
       \<and> failedPages pages (map (analyze_page_task w) pages) = []"
proof -
  have "\<forall>p\<in>set pages. pr_url (analyzePage w p) = p \<and> pr_error (analyzePage w p) \<noteq> None
          \<and> pr_issues (analyzePage w p) = []"
  proof
    fix p assume "p \<in> set pages"
    with assms(1) obtain e where "w_fetch w GET p = Inl e" by blast
    from analyzePage_fetch_throws [OF this] obtain m where
      "analyzePage w p = \<lparr>pr_url = p, pr_issues = [], pr_load_time_ms = None,
            pr_content_length = None, pr_error = Some m\<rparr>" ..
    then show "pr_url (analyzePage w p) = p \<and> pr_error (analyzePage w p) \<noteq> None
          \<and> pr_issues (analyzePage w p) = []"
      by simp
  qed
  then have "map pr_url (map (analyzePage w) pages) = pages"
    and "\<forall>x\<in>set (map (analyzePage w) pages). pr_error x \<noteq> None \<and> pr_issues x = []"
    by (simp_all add: map_idI)
  then show ?thesis
    using all_run_successful [OF assms(2)] by simp
qed

lemma no_issues_total:
  assumes "\<forall>x\<in>set rs. pr_issues x = []"
  shows "foldl (\<lambda>sum is. sum + length is) 0 (map snd (allIssues rs)) = 0"
proof -
  have "concat (map (\<lambda>r. case map_of (pr_issues r) c of None \<Rightarrow> [] | Some is \<Rightarrow> is) rs) = []" for c
    using assms by (induction rs) simp_all
  then show ?thesis
    by (simp add: allIssues_def foldl_add_length comp_def)
qed

text \<open>
  C1, as the program has it. \<open>fetchPage\<close> turns a failed fetch into data and
  \<open>analyzePage\<close> returns a page result that carries the error, so the promise of the
  task is fulfilled. When the fetch of every discovered page throws and every run of
  \<open>analyze_page\<close> completes, the audit counts every page in \<open>pages_analyzed\<close>, leaves
  \<open>failed_pages\<close> empty, and lists one result per page, in order, each with \<open>error\<close> set
  and no issues; \<open>total_issues\<close> is 0.
\<close>

theorem audit_all_fetches_fail:
  assumes "discoverPages w u (min maxPages 100) = Some (Inr pages)"
    and "\<forall>p\<in>set pages. \<exists>e. w_fetch w GET p = Inl e"
    and "\<forall>p\<in>set pages. w_task_failure w p = None"
  shows "\<exists>r. audit_site w u maxPages maxConcurrency = Some (Inr r)
           \<and> pages_analyzed r = length pages
           \<and> failed_pages r = []
           \<and> map pr_url (results r) = pages
           \<and> (\<forall>x\<in>set (results r). pr_error x \<noteq> None \<and> pr_issues x = [])
           \<and> total_issues r = 0"
proof (cases "pages = []")
  case True
  with assms(1) show ?thesis
    by (simp add: audit_site_def Let_def)
next
  case False
  let ?rs = "map (analyze_page_task w) pages"
  have pb: "processBatches pages (nat (min (max maxConcurrency 1) 50)) (analyze_page_task w) = Some ?rs"
    by (rule processBatches_total [OF capped_concurrency])
  from all_fail_successful [OF assms(2,3)] have
    s: "map pr_url (successfulResults ?rs) = pages"
    and e: "\<forall>x\<in>set (successfulResults ?rs). pr_error x \<noteq> None \<and> pr_issues x = []"
    and f: "failedPages pages ?rs = []"
    by blast+
  from s have l: "length (successfulResults ?rs) = length pages"
    by (metis length_map)
  from e have "\<forall>x\<in>set (successfulResults ?rs). pr_issues x = []" by blast
  then have z: "foldl (\<lambda>sum is. sum + length is) 0 (map snd (allIssues (successfulResults ?rs))) = 0"
    by (rule no_issues_total)
  have "audit_site w u maxPages maxConcurrency = Some (Inr (aggregate u pages ?rs))"
    using assms(1) False pb by (simp add: audit_site_def Let_def)
  moreover have "pages_analyzed (aggregate u pages ?rs) = length pages"
    using l by (simp add: aggregate_def Let_def)
  moreover have "failed_pages (aggregate u pages ?rs) = []"
    using f by (simp add: aggregate_def Let_def)
  moreover have "results (aggregate u pages ?rs) = successfulResults ?rs"
    by (simp add: aggregate_def Let_def)
  moreover have "total_issues (aggregate u pages ?rs) = 0"
    using z by (simp add: aggregate_def Let_def)
  ultimately show ?thesis
    using s e by simp
qed

section \<open>processBatches: starts and settlements\<close>

lemma batch_run_settles_all:
  "batch_run todo pending t \<Longrightarrow> foldl in_flight_step pending t = {}"
  by (induction rule: batch_run.induct) (simp_all add: in_flight_step_def)

lemma batch_run_in_flight:
  "batch_run todo pending t \<Longrightarrow> foldl in_flight_step pending (take k t) \<subseteq> pending \<union> set todo"
proof (induction arbitrary: k rule: batch_run.induct)
  case all_settled
  show ?case by simp
next
  case (call todo j pending t)
  show ?case
  proof (cases k)
    case 0
    then show ?thesis by auto
  next
    case (Suc k')
    with call.IH [of k'] show ?thesis
      by (auto simp: in_flight_step_def)
  qed
next
  case (settle j pending todo t)
  show ?case
  proof (cases k)
    case 0
    then show ?thesis by auto
  next
    case (Suc k')
    with settle.IH [of k'] show ?thesis
      by (auto simp: in_flight_step_def)
  qed
qed



lemma in_flight_append:
  "in_flight (t1 @ t2) = foldl in_flight_step (in_flight t1) t2"
  by (simp add: in_flight_def)

lemma schedule_in_flight:
  "schedule n bs i t \<Longrightarrow> card (in_flight (take k t)) \<le> bs"
proof (induction arbitrary: k rule: schedule.induct)
  case (loop_exit i n bs)
  show ?case by (simp add: in_flight_def)
next
  case (loop_round i n bs t1 t2)
  show ?case
  proof (cases "k \<le> length t1")
    case True
    from batch_run_in_flight [OF loop_round.hyps(2), of k]
    have "in_flight (take k t1) \<subseteq> {i ..< min (i + bs) n}"
      by (simp add: in_flight_def)
    then have "card (in_flight (take k t1)) \<le> card {i ..< min (i + bs) n}"
      by (intro card_mono) simp_all
    also have "\<dots> \<le> bs" by simp
    finally show ?thesis using True by simp
  next
    case False
    have "in_flight t1 = {}"
      using batch_run_settles_all [OF loop_round.hyps(2)] by (simp add: in_flight_def)
    then have "in_flight (take k (t1 @ t2)) = in_flight (take (k - length t1) t2)"
      using False by (simp add: in_flight_append) (simp add: in_flight_def)
    with loop_round.IH [of "k - length t1"] show ?thesis by simp
  qed
qed


text \<open>For a positive batch size there is a sequence of events: the loop ends.\<close>

lemma batch_run_one_by_one:
  "batch_run todo {} (concat (map (\<lambda>j. [Start j, Settle j]) todo))"
proof (induction todo)
  case Nil
  show ?case by (simp add: batch_run.all_settled)
next
  case (Cons j todo)
  let ?rest = "concat (map (\<lambda>j. [Start j, Settle j]) todo)"
  from Cons have "batch_run todo ({j} - {j}) ?rest" by simp
  then have "batch_run todo {j} (Settle j # ?rest)"
    by (intro batch_run.settle) simp_all
  then have "batch_run (j # todo) {} (Start j # Settle j # ?rest)"
    by (intro batch_run.call)
  then show ?case by simp
qed

lemma schedule_exists:
  assumes "0 < bs"
  shows "\<exists>t. schedule n bs i t"
proof (induction "n - i" arbitrary: i rule: less_induct)
  case less
  show ?case
  proof (cases "i < n")
    case True
    then have "n - (i + bs) < n - i" using assms by arith
    from less [OF this] obtain t2 where "schedule n bs (i + bs) t2" ..
    from schedule.loop_round [OF True batch_run_one_by_one this] show ?thesis ..
  next
    case False
    then have "schedule n bs i []" by (rule schedule.loop_exit)
    then show ?thesis ..
  qed
qed

lemma finite_in_flight: "finite (in_flight t)"
proof -
  have "finite s \<Longrightarrow> finite (foldl in_flight_step s t)" for s
    by (induction t arbitrary: s) (simp_all add: in_flight_step_def split: event.splits)
  then show ?thesis by (simp add: in_flight_def)
qed



text \<open>
  C8. Whatever the order in which the analyses settle, after any number of events of
  \<open>processBatches\<close> over \<open>N\<close> URLs with batch size \<open>C\<close>, at most \<open>C\<close> analyses have
  started and not yet settled.
\<close>

theorem at_most_C_in_flight:
  assumes "schedule N C 0 t"
  shows "finite (in_flight (take k t)) \<and> card (in_flight (take k t)) \<le> C"
  using schedule_in_flight [OF assms] finite_in_flight by blast

lemma first_batch_of_three: "[0 ..< min (0 + 2) 3] = [0, Suc 0]"
  by (simp add: upt_rec)

lemma second_batch_of_three: "[0 + 2 ..< min (0 + 2 + 2) 3] = [2]"
  by (simp add: upt_rec)

lemma ex_schedule:
  "schedule 3 2 0 [Start 0, Start 1, Settle 1, Settle 0, Start 2, Settle 2]"
proof -
  have b1: "batch_run [0 ..< min (0 + 2) 3] {} [Start 0, Start 1, Settle 1, Settle 0]"
    unfolding first_batch_of_three
    apply (rule batch_run.call)
    apply simp
    apply (rule batch_run.call)
    apply (rule batch_run.settle)
     apply simp
    apply simp
    apply (rule batch_run.settle)
     apply simp
    apply simp
    apply (rule batch_run.all_settled)
    done
  have b2: "batch_run [0 + 2 ..< min (0 + 2 + 2) 3] {} [Start 2, Settle 2]"
    unfolding second_batch_of_three
    apply (rule batch_run.call)
    apply (rule batch_run.settle)
     apply simp
    apply simp
    apply (rule batch_run.all_settled)
    done
  have e: "schedule 3 2 (0 + 2 + 2) []"
    by (rule schedule.loop_exit) simp
  have r2: "schedule 3 2 (0 + 2) ([Start 2, Settle 2] @ [])"
    by (rule schedule.loop_round [OF _ b2 e]) simp
  have "schedule 3 2 0 ([Start 0, Start 1, Settle 1, Settle 0] @ [Start 2, Settle 2] @ [])"
    by (rule schedule.loop_round [OF _ b1 r2]) simp
  then show ?thesis by simp
qed


text \<open>
  C8 on three URLs with \<open>C = 2\<close>: after the first two events two analyses are in flight.
\<close>

theorem at_most_C_in_flight_witness:
  "schedule 3 2 0 [Start 0, Start 1, Settle 1, Settle 0, Start 2, Settle 2]
   \<and> in_flight (take 2 [Start 0, Start 1, Settle 1, Settle 0, Start 2, Settle 2]) = {0, 1}
   \<and> card (in_flight (take 2 [Start 0, Start 1, Settle 1, Settle 0, Start 2, Settle 2])) \<le> 2"
  using at_most_C_in_flight [OF ex_schedule, of 2] ex_schedule
  by (auto simp: in_flight_def in_flight_step_def)

text \<open>
  C1 on a site whose sitemap lists two pages, neither of which answers.
\<close>

theorem audit_all_fetches_fail_witness:
  "discoverPages site_unreachable_pages ''https://example.com'' 25
     = Some (Inr [''https://example.com/a'', ''https://other.org/b''])
   \<and> w_fetch site_unreachable_pages GET ''https://example.com/a'' = refused
   \<and> w_fetch site_unreachable_pages GET ''https://other.org/b'' = refused
   \<and> (\<exists>r. audit_site site_unreachable_pages ''https://example.com'' 25 10 = Some (Inr r)
          \<and> pages_analyzed r = 2 \<and> failed_pages r = []
          \<and> map pr_url (results r) = [''https://example.com/a'', ''https://other.org/b'']
          \<and> total_issues r = 0)"
proof -
  let ?pages = "[''https://example.com/a'', ''https://other.org/b'']"
  have d: "discoverPages site_unreachable_pages ''https://example.com'' (min 25 100) = Some (Inr ?pages)"
    by code_simp
  have f: "\<forall>p\<in>set ?pages. \<exists>e. w_fetch site_unreachable_pages GET p = Inl e"
    by (simp add: site_unreachable_pages_def site_def refused_def)
  have t: "\<forall>p\<in>set ?pages. w_task_failure site_unreachable_pages p = None"
    by (simp add: site_unreachable_pages_def site_def)
  have r: "w_fetch site_unreachable_pages GET ''https://example.com/a'' = refused"
    "w_fetch site_unreachable_pages GET ''https://other.org/b'' = refused"
    by (simp_all add: site_unreachable_pages_def site_def)
  from audit_all_fetches_fail [OF d f t, of 10] show ?thesis
    using d r by auto
qed

text \<open>
  C1 as stated (\<open>pages_analyzed = 0\<close>, the pages in \<open>failed_pages\<close>, no results) fails on
  that site: both fetches are refused, and the audit reports 2 pages analyzed, no failed
  page, and two results that carry the error.
\<close>

theorem audit_all_fetches_fail_counterexample:
  "w_fetch site_unreachable_pages GET ''https://example.com/a'' = refused
   \<and> w_fetch site_unreachable_pages GET ''https://other.org/b'' = refused
   \<and> audit_site site_unreachable_pages ''https://example.com'' 25 10 =
  Some (Inr \<lparr>a_url = ''https://example.com'', pages_analyzed = 2, failed_pages = [],
    total_issues = 0,
    issues_by_category =
      [(''meta_tags'', 0), (''links'', 0), (''headings'', 0),
       (''images'', 0), (''performance'', 0)],
    results =
      [\<lparr>pr_url = ''https://example.com/a'', pr_issues = [],
          pr_load_time_ms = None, pr_content_length = None,
          pr_error = Some ''Request error: connect ECONNREFUSED''\<rparr>,
       \<lparr>pr_url = ''https://other.org/b'', pr_issues = [],
          pr_load_time_ms = None, pr_content_length = None,
          pr_error = Some ''Request error: connect ECONNREFUSED''\<rparr>]\<rparr>)"
  by code_simp

text \<open>
  C2 on a site without sitemap, crawled for two pages.
\<close>

theorem audit_issue_totals_witness:
  "\<exists>r. audit_site site_without_sitemap ''https://example.com/?q=1'' 2 10 = Some (Inr r)
      \<and> total_issues r = sum_list (map snd (issues_by_category r))
      \<and> map fst (issues_by_category r)
          = [''meta_tags'', ''links'', ''headings'', ''images'', ''performance'']"
proof -
  have d: "discoverPages site_without_sitemap ''https://example.com/?q=1'' (min 2 100)
      = Some (Inr [''https://example.com/?q=1'', ''https://example.com/about''])"
    by code_simp
  from audit_issue_totals [OF d, of 10] show ?thesis
    by (simp add: categories_def)
qed

text \<open>
  C2 as stated (the five keys also when no page is discovered) fails on a site where
  nothing answers: \<open>issues_by_category\<close> is empty.
\<close>

theorem audit_zero_pages_counterexample:
  "audit_site site_down ''https://example.com'' 25 10 =
     Some (Inr \<lparr>a_url = ''https://example.com'', pages_analyzed = 0, failed_pages = [],
       total_issues = 0, issues_by_category = [], results = []\<rparr>)"
  by code_simp

section \<open>Discovery: the crawl loop\<close>

lemma enqueue_link_cases:
  "enqueue_link w page h V Q e = Q
   \<or> (\<exists>hr a. w_url w hr (Some page) = Some a \<and> host a = h
          \<and> enqueue_link w page h V Q e = Q @ [cleanUrl a])"
proof (cases "falsy (attr e ''href'')")
  case True
  then show ?thesis by (simp add: enqueue_link_def)
next
  case False
  show ?thesis
  proof (cases "w_url w (the (attr e ''href'')) (Some page)")
    case None
    then show ?thesis using False by (simp add: enqueue_link_def)
  next
    case (Some a)
    show ?thesis
    proof (cases "host a = h \<and> cleanUrl a \<notin> V \<and> cleanUrl a \<notin> set Q")
      case True
      then have "enqueue_link w page h V Q e = Q @ [cleanUrl a]"
        using False Some by (simp add: enqueue_link_def)
      with Some True show ?thesis by blast
    next
      case no: False
      then have "enqueue_link w page h V Q e = Q"
        using False Some by (auto simp: enqueue_link_def)
      then show ?thesis ..
    qed
  qed
qed

lemma enqueue_link_inv:
  assumes "\<forall>x\<in>set Q. x = s \<or> clean_link w h x"
  shows "\<forall>x\<in>set (enqueue_link w page h V Q e). x = s \<or> clean_link w h x"
proof -
  from enqueue_link_cases [of w page h V Q e] show ?thesis
  proof
    assume "enqueue_link w page h V Q e = Q"
    with assms show ?thesis by simp
  next
    assume "\<exists>hr a. w_url w hr (Some page) = Some a \<and> host a = h
          \<and> enqueue_link w page h V Q e = Q @ [cleanUrl a]"
    then obtain hr a where a: "w_url w hr (Some page) = Some a" "host a = h"
      and e: "enqueue_link w page h V Q e = Q @ [cleanUrl a]" by blast
    from a have "clean_link w h (cleanUrl a)"
      unfolding clean_link_def by blast
    with assms show ?thesis
      unfolding e by simp
  qed
qed

lemma foldl_enqueue_inv:
  "\<forall>x\<in>set Q. x = s \<or> clean_link w h x
     \<Longrightarrow> \<forall>x\<in>set (foldl (enqueue_link w page h V) Q es). x = s \<or> clean_link w h x"
proof (induction es arbitrary: Q)
  case Nil
  then show ?case by simp
next
  case (Cons e es)
  from enqueue_link_inv [OF Cons.prems]
  have "\<forall>x\<in>set (enqueue_link w page h V Q e). x = s \<or> clean_link w h x" .
  from Cons.IH [OF this] show ?case by simp
qed

lemma crawl_visit_cases:
  assumes "crawl_visit w h V Q u = Some q"
  shows "q = Q \<or> (\<exists>es. q = foldl (enqueue_link w u h V) Q es)"
proof (cases "w_fetch w GET u")
  case (Inl e)
  with assms show ?thesis by (simp add: crawl_visit_def)
next
  case (Inr r)
  show ?thesis
  proof (cases "r_text r")
    case (Inl e)
    with assms Inr show ?thesis
      by (simp add: crawl_visit_def split: if_splits)
  next
    case body: (Inr body)
    with assms Inr
    have "q = foldl (enqueue_link w u h V) Q (select_has_attr (w_load w False body) ''a'' ''href'')"
      by (simp add: crawl_visit_def split: if_splits)
    then show ?thesis by blast
  qed
qed

lemma crawl_visit_inv:
  assumes "\<forall>x\<in>set Q. x = s \<or> clean_link w h x"
    and "crawl_visit w h V Q u = Some q"
  shows "\<forall>x\<in>set q. x = s \<or> clean_link w h x"
proof -
  from crawl_visit_cases [OF assms(2)] show ?thesis
  proof
    assume "q = Q"
    with assms(1) show ?thesis by simp
  next
    assume "\<exists>es. q = foldl (enqueue_link w u h V) Q es"
    then obtain es where "q = foldl (enqueue_link w u h V) Q es" ..
    with foldl_enqueue_inv [OF assms(1)] show ?thesis by simp
  qed
qed

text \<open>
  An invariant rule for the \<open>while\<close> loop: \<open>I\<close> holds of \<open>visited\<close>, \<open>toVisit\<close> and
  \<open>foundUrls\<close> at the start, and each way through the loop body keeps it.
\<close>

lemma crawl_loop_invariant:
  assumes init: "I V Q F"
    and skip: "\<And>V u rest F. I V (u # rest) F \<Longrightarrow> u = [] \<or> u \<in> V \<Longrightarrow> I V rest F"
    and miss: "\<And>V u rest F. I V (u # rest) F \<Longrightarrow> u \<notin> V \<Longrightarrow> I (insert u V) rest F"
    and hit: "\<And>V u rest F q. I V (u # rest) F \<Longrightarrow> u \<notin> V \<Longrightarrow> int (length F) < m
                \<Longrightarrow> crawl_visit w h (insert u V) rest u = Some q
                \<Longrightarrow> I (insert u V) q (F @ [u])"
    and final: "\<And>V Q F. I V Q F \<Longrightarrow> R F"
  shows "R (crawl_loop w h m V Q F)"
  using assms
proof (induction w h m V Q F rule: crawl_loop.induct)
  case (1 w h m V Q F)
  note inv = "1.prems"(1) and skip = "1.prems"(2) and miss = "1.prems"(3)
    and hit = "1.prems"(4) and final = "1.prems"(5)
  show ?case
  proof (cases Q)
    case Nil
    then have "crawl_loop w h m V Q F = F"
      by (subst crawl_loop.simps) simp
    with final [OF inv] show ?thesis by simp
  next
    case (Cons u rest)
    have iv: "I V (u # rest) F" using inv Cons by simp
    show ?thesis
    proof (cases "int (length F) < m")
      case False
      then have "crawl_loop w h m V Q F = F"
        using Cons by (subst crawl_loop.simps) simp
      with final [OF inv] show ?thesis by simp
    next
      case True
      then have nn: "\<not> \<not> int (length F) < m" by simp
      show ?thesis
      proof (cases "u = [] \<or> u \<in> V")
        case skipped: True
        then have eq: "crawl_loop w h m V Q F = crawl_loop w h m V rest F"
          using Cons True by (subst crawl_loop.simps) auto
        have next_inv: "I V rest F" by (rule skip [OF iv skipped])
        have "R (crawl_loop w h m V rest F)"
        proof (cases "u = []")
          case True
          show ?thesis
            by (rule "1.IH"(1) [OF Cons nn True next_inv skip miss hit final])
        next
          case False
          with skipped have "u \<in> V" by simp
          show ?thesis
            by (rule "1.IH"(2) [OF Cons nn False \<open>u \<in> V\<close> next_inv skip miss hit final])
        qed
        with eq show ?thesis by simp
      next
        case fresh: False
        then have ne: "u \<noteq> []" and new: "u \<notin> V" by simp_all
        show ?thesis
        proof (cases "crawl_visit w h (insert u V) rest u")
          case None
          then have eq: "crawl_loop w h m V Q F = crawl_loop w h m (insert u V) rest F"
            using Cons True fresh by (subst crawl_loop.simps) simp
          have next_inv: "I (insert u V) rest F" by (rule miss [OF iv new])
          have "R (crawl_loop w h m (insert u V) rest F)"
            by (rule "1.IH"(3) [OF Cons nn ne new None next_inv skip miss hit final])
          with eq show ?thesis by simp
        next
          case (Some q)
          then have eq: "crawl_loop w h m V Q F = crawl_loop w h m (insert u V) q (F @ [u])"
            using Cons True fresh by (subst crawl_loop.simps) simp
          have next_inv: "I (insert u V) q (F @ [u])" by (rule hit [OF iv new True Some])
          have "R (crawl_loop w h m (insert u V) q (F @ [u]))"
            by (rule "1.IH"(4) [OF Cons nn ne new Some next_inv skip miss hit final])
          with eq show ?thesis by simp
        qed
      qed
    qed
  qed
qed

lemma crawl_loop_length: "length (crawl_loop w h m V Q []) \<le> nat m"
  by (rule crawl_loop_invariant [where I = "\<lambda>V Q F. length F \<le> nat m"]) simp_all

lemma crawl_loop_distinct: "distinct (crawl_loop w h m {} Q [])"
  by (rule crawl_loop_invariant [where I = "\<lambda>V Q F. distinct F \<and> set F \<subseteq> V"]) auto

lemma crawl_loop_clean_link:
  "\<forall>x\<in>set (crawl_loop w h m V [s] []). x = s \<or> clean_link w h x"
proof (rule crawl_loop_invariant
    [where I = "\<lambda>V Q F. \<forall>x\<in>set Q \<union> set F. x = s \<or> clean_link w h x"])
  show "\<forall>x\<in>set [s] \<union> set []. x = s \<or> clean_link w h x" by simp
next
  fix V u rest F q
  assume inv: "\<forall>x\<in>set (u # rest) \<union> set F. x = s \<or> clean_link w h x"
    and visit: "crawl_visit w h (insert u V) rest u = Some q"
  from inv have "\<forall>x\<in>set rest. x = s \<or> clean_link w h x" by simp
  from crawl_visit_inv [OF this visit] inv
  show "\<forall>x\<in>set q \<union> set (F @ [u]). x = s \<or> clean_link w h x" by auto
qed auto

lemma sitemap_step_length:
  "sitemap_step w b m = Done urls \<Longrightarrow> length urls \<le> nat m"
  by (auto simp: sitemap_step_def regular_sitemap_def Let_def
      split: sum.splits if_splits list.splits)

lemma trySitemap_length:
  assumes "trySitemap w b m = Some urls"
  shows "length urls \<le> nat m"
  using assms
proof (induction w b m urls rule: trySitemap.raw_induct [rotated 1, consumes 1, case_names step])
  case (step rec w b m urls)
  show ?case
  proof (cases "sitemap_step w b m")
    case (Follow b')
    with step.hyps have "rec w b' m = Some urls" by simp
    then show ?thesis by (rule step.IH)
  next
    case (Done us)
    with step.hyps have "us = urls" by simp
    with Done show ?thesis by (simp add: sitemap_step_length)
  qed
qed

lemma slice0_take: "0 \<le> e \<Longrightarrow> slice0 xs e = take (nat e) xs"
  by (simp add: slice0_def)

lemma discoverPages_length:
  assumes "discoverPages w rootUrl maxPages = Some (Inr urls)"
  shows "length urls \<le> nat maxPages"
proof (cases "w_url w rootUrl None")
  case None
  with assms show ?thesis by (simp add: discoverPages_def)
next
  case (Some u)
  let ?base = "protocol u @ ''//'' @ host u"
  show ?thesis
  proof (cases "trySitemap w ?base maxPages")
    case None
    with assms Some show ?thesis by (simp add: discoverPages_def)
  next
    case found: (Some sitemapUrls)
    from trySitemap_length [OF found] have len: "length sitemapUrls \<le> nat maxPages" .
    show ?thesis
    proof (cases "sitemapUrls = []")
      case True
      with assms Some found have "crawlLinks w rootUrl ?base maxPages = Inr urls"
        by (simp add: discoverPages_def)
      then show ?thesis
        by (auto simp: crawlLinks_def crawl_loop_length split: option.splits)
    next
      case False
      with len have "0 \<le> maxPages" by (cases "0 \<le> maxPages") auto
      with assms Some found False have "urls = take (nat maxPages) sitemapUrls"
        by (simp add: discoverPages_def slice0_take)
      then show ?thesis by simp
    qed
  qed
qed

text \<open>
  C5, as the program has it. \<open>discoverPages\<close> returns at most \<open>maxPages\<close> URLs (none
  when \<open>maxPages\<close> is not positive), whichever strategy produced them. The list of the
  link crawl has no URL twice. The sitemap strategy returns the entries of the sitemap
  as they are listed, so the claim of no duplicates is limited to the link crawl.
\<close>

theorem discover_bounded_crawl_distinct:
  "(discoverPages w rootUrl maxPages = Some (Inr urls) \<longrightarrow> length urls \<le> nat maxPages)
   \<and> (crawlLinks w startUrl baseUrl maxPages = Inr found
        \<longrightarrow> distinct found \<and> length found \<le> nat maxPages)"
  by (auto simp: discoverPages_length crawlLinks_def crawl_loop_length crawl_loop_distinct
      split: option.splits)

lemma sitemap_step_regular:
  assumes "w_fetch w GET (b @ ''/sitemap.xml'') = Inr r" and "ok r" and "r_text r = Inr xml"
    and "select_descendant (w_load w True xml) ''sitemap'' ''loc'' = []"
  shows "sitemap_step w b m = Done (take (nat m)
           (map (\<lambda>e. trim (text_of e)) (select_descendant (w_load w True xml) ''url'' ''loc'')))"
  using assms by (simp add: sitemap_step_def regular_sitemap_def)

section \<open>Discovery: the sitemap\<close>

lemma trySitemap_regular:
  assumes "w_fetch w GET (b @ ''/sitemap.xml'') = Inr r" and "ok r" and "r_text r = Inr xml"
    and "select_descendant (w_load w True xml) ''sitemap'' ''loc'' = []"
  shows "trySitemap w b m = Some (take (nat m)
           (map (\<lambda>e. trim (text_of e)) (select_descendant (w_load w True xml) ''url'' ''loc'')))"
  by (subst trySitemap.simps) (simp add: sitemap_step_regular [OF assms])

text \<open>
  C9. On the site whose sitemap lists \<open>https://other.org/b\<close>, \<open>discoverPages\<close> for the
  root \<open>https://example.com\<close> returns that URL of another host unchanged. In general,
  when \<open>/sitemap.xml\<close> is served and is no sitemap index, \<open>discoverPages\<close> returns the
  first \<open>maxPages\<close> texts of its \<open><url><loc>\<close> entries, trimmed and otherwise as
  they are: no host is compared and no URL is rewritten. The link crawl, in contrast,
  records besides the start URL only URLs that \<open>cleanUrl\<close> made of links on the host of
  the base URL.
\<close>

theorem sitemap_urls_verbatim:
  "discoverPages site_unreachable_pages ''https://example.com'' 25
      = Some (Inr [''https://example.com/a'', ''https://other.org/b''])
   \<and> map_option host (w_url site_unreachable_pages ''https://example.com'' None)
      = Some ''example.com''
   \<and> map_option host (w_url site_unreachable_pages ''https://other.org/b'' None)
      = Some ''other.org''
   \<and> (w_url w rootUrl None = Some u
        \<and> w_fetch w GET (protocol u @ ''//'' @ host u @ ''/sitemap.xml'') = Inr r
        \<and> ok r \<and> r_text r = Inr xml
        \<and> select_descendant (w_load w True xml) ''sitemap'' ''loc'' = []
        \<and> locs = map (\<lambda>e. trim (text_of e)) (select_descendant (w_load w True xml) ''url'' ''loc'')
        \<and> locs \<noteq> [] \<and> 0 < maxPages
      \<longrightarrow> discoverPages w rootUrl maxPages = Some (Inr (take (nat maxPages) locs)))
   \<and> (crawlLinks w startUrl baseUrl maxPages = Inr found \<and> x \<in> set found \<and> x \<noteq> startUrl
      \<longrightarrow> (\<exists>b a hr page. w_url w baseUrl None = Some b \<and> w_url w hr (Some page) = Some a
              \<and> host a = host b \<and> x = cleanUrl a))"
proof (intro conjI impI)
  show "discoverPages site_unreachable_pages ''https://example.com'' 25
      = Some (Inr [''https://example.com/a'', ''https://other.org/b''])"
    by code_simp
  show "map_option host (w_url site_unreachable_pages ''https://example.com'' None)
      = Some ''example.com''"
    by code_simp
  show "map_option host (w_url site_unreachable_pages ''https://other.org/b'' None)
      = Some ''other.org''"
    by code_simp
next
  assume a: "w_url w rootUrl None = Some u
        \<and> w_fetch w GET (protocol u @ ''//'' @ host u @ ''/sitemap.xml'') = Inr r
        \<and> ok r \<and> r_text r = Inr xml
        \<and> select_descendant (w_load w True xml) ''sitemap'' ''loc'' = []
        \<and> locs = map (\<lambda>e. trim (text_of e)) (select_descendant (w_load w True xml) ''url'' ''loc'')
        \<and> locs \<noteq> [] \<and> 0 < maxPages"
  then have u: "w_url w rootUrl None = Some u"
    and f0: "w_fetch w GET (protocol u @ ''//'' @ host u @ ''/sitemap.xml'') = Inr r"
    and r: "ok r" "r_text r = Inr xml"
    and idx: "select_descendant (w_load w True xml) ''sitemap'' ''loc'' = []"
    and locs: "locs = map (\<lambda>e. trim (text_of e))
                 (select_descendant (w_load w True xml) ''url'' ''loc'')"
    and ne: "locs \<noteq> []" and m: "0 < maxPages"
    by blast+
  from f0 have f: "w_fetch w GET ((protocol u @ ''//'' @ host u) @ ''/sitemap.xml'') = Inr r"
    by simp
  define xs where "xs = take (nat maxPages) locs"
  have t: "trySitemap w (protocol u @ ''//'' @ host u) maxPages = Some xs"
    unfolding xs_def locs by (rule trySitemap_regular [OF f r idx])
  have xne: "0 < length xs"
    using ne m by (cases locs) (simp_all add: xs_def)
  have s: "slice0 xs maxPages = xs"
    using m by (simp add: slice0_take xs_def)
  have "discoverPages w rootUrl maxPages = Some (Inr xs)"
    using u t xne s by (simp add: discoverPages_def)
  then show "discoverPages w rootUrl maxPages = Some (Inr (take (nat maxPages) locs))"
    by (simp add: xs_def)
next
  assume a: "crawlLinks w startUrl baseUrl maxPages = Inr found \<and> x \<in> set found \<and> x \<noteq> startUrl"
  then obtain b where b: "w_url w baseUrl None = Some b"
    and found: "found = crawl_loop w (host b) maxPages {} [startUrl] []"
    by (auto simp: crawlLinks_def split: option.splits)
  with a crawl_loop_clean_link [of w "host b" maxPages "{}" startUrl]
  have "clean_link w (host b) x" by blast
  then obtain hr page c where "w_url w hr (Some page) = Some c" "host c = host b" "x = cleanUrl c"
    unfolding clean_link_def by blast
  with b show "\<exists>b a hr page. w_url w baseUrl None = Some b \<and> w_url w hr (Some page) = Some a
              \<and> host a = host b \<and> x = cleanUrl a"
    by blast
qed

text \<open>
  C9 on a sitemap of two entries with \<open>maxPages = 1\<close>, and on the crawl of the site
  without sitemap, whose root page links to \<open>https://other.org/\<close>: the crawl records
  \<open>/about\<close> and not the link to the other host.
\<close>

theorem sitemap_urls_verbatim_witness:
  "discoverPages site_repeating_sitemap ''https://example.com'' 1
       = Some (Inr [''https://example.com/a''])
   \<and> crawlLinks site_without_sitemap ''https://example.com/?q=1'' ''https://example.com'' 25
       = Inr [''https://example.com/?q=1'', ''https://example.com/about'', ''https://example.com/'']
   \<and> (\<exists>b a hr page. w_url site_without_sitemap ''https://example.com'' None = Some b
          \<and> w_url site_without_sitemap hr (Some page) = Some a
          \<and> host a = host b \<and> ''https://example.com/about'' = cleanUrl a)
   \<and> map_option host
         (w_url site_without_sitemap ''https://other.org/'' (Some ''https://example.com/?q=1''))
       = Some ''other.org''"
proof -
  have 1: "w_url site_repeating_sitemap ''https://example.com'' None
      = Some \<lparr>protocol = ''https:'', host = ''example.com'', pathname = ''/'',
               href = ''https://example.com/''\<rparr>"
    by code_simp
  have 2: "w_fetch site_repeating_sitemap GET
        (''https:'' @ ''//'' @ ''example.com'' @ ''/sitemap.xml'')
      = Inr \<lparr>r_status = 200, r_headers = [(''content-type'', ''application/xml'')],
              r_text = Inr ''<urlset>a,a</urlset>'', r_elapsed = 120\<rparr>"
    by code_simp
  have 3: "select_descendant (w_load site_repeating_sitemap True ''<urlset>a,a</urlset>'')
        ''sitemap'' ''loc'' = []"
    by code_simp
  have 4: "map (\<lambda>e. trim (text_of e))
        (select_descendant (w_load site_repeating_sitemap True ''<urlset>a,a</urlset>'')
           ''url'' ''loc'')
      = [''https://example.com/a'', ''https://example.com/a'']"
    by code_simp
  have c: "crawlLinks site_without_sitemap ''https://example.com/?q=1'' ''https://example.com'' 25
       = Inr [''https://example.com/?q=1'', ''https://example.com/about'', ''https://example.com/'']"
    by code_simp
  have 6: "map_option host
         (w_url site_without_sitemap ''https://other.org/'' (Some ''https://example.com/?q=1''))
       = Some ''other.org''"
    by code_simp
  from sitemap_urls_verbatim
    [of site_repeating_sitemap "''https://example.com''"
        "\<lparr>protocol = ''https:'', host = ''example.com'', pathname = ''/'',
               href = ''https://example.com/''\<rparr>"
        "\<lparr>r_status = 200, r_headers = [(''content-type'', ''application/xml'')],
              r_text = Inr ''<urlset>a,a</urlset>'', r_elapsed = 120\<rparr>"
        "''<urlset>a,a</urlset>''" "[''https://example.com/a'', ''https://example.com/a'']" 1]
  have s: "discoverPages site_repeating_sitemap ''https://example.com'' 1
      = Some (Inr (take (nat 1) [''https://example.com/a'', ''https://example.com/a'']))"
    using 1 2 3 4 by (simp add: ok_def)
  from sitemap_urls_verbatim
    [where w = site_without_sitemap and startUrl = "''https://example.com/?q=1''"
       and baseUrl = "''https://example.com''" and maxPages = 25
       and found = "[''https://example.com/?q=1'', ''https://example.com/about'',
                     ''https://example.com/'']"
       and x = "''https://example.com/about''"]
  have l: "\<exists>b a hr page. w_url site_without_sitemap ''https://example.com'' None = Some b
          \<and> w_url site_without_sitemap hr (Some page) = Some a
          \<and> host a = host b \<and> ''https://example.com/about'' = cleanUrl a"
    using c by simp
  from s c l 6 show ?thesis by simp
qed

section \<open>Discovery: what the crawl records\<close>

lemma crawl_loop_prefix: "\<exists>ys. crawl_loop w h m V Q F0 = F0 @ ys"
  by (rule crawl_loop_invariant [where I = "\<lambda>V Q F. \<exists>ys. F = F0 @ ys"]) auto

lemma crawl_loop_first:
  "crawl_loop w h m {} [s] [] = [] \<or> hd (crawl_loop w h m {} [s] []) = s"
proof (cases "int (length ([] :: string list)) < m \<and> s \<noteq> []")
  case False
  then show ?thesis
    by (subst crawl_loop.simps) (auto simp: crawl_loop.simps [of w h m "{}" "[]"])
next
  case True
  show ?thesis
  proof (cases "crawl_visit w h (insert s {}) [] s")
    case None
    then have "crawl_loop w h m {} [s] [] = []"
      using True by (subst crawl_loop.simps) (simp add: crawl_loop.simps [of w h m _ "[]"])
    then show ?thesis by simp
  next
    case (Some q)
    then have "crawl_loop w h m {} [s] [] = crawl_loop w h m (insert s {}) q ([] @ [s])"
      using True by (subst crawl_loop.simps) simp
    moreover from crawl_loop_prefix [of w h m "insert s {}" q "[] @ [s]"]
    obtain ys where "crawl_loop w h m (insert s {}) q ([] @ [s]) = ([] @ [s]) @ ys" ..
    ultimately show ?thesis by simp
  qed
qed

text \<open>
  C6, as the program has it. Every URL the link crawl records, other than the start
  URL, is the \<open>cleanUrl\<close> of a link on the host of the base URL: scheme, host and path,
  without query and fragment. The start URL is taken from the queue as it was put
  there, so it is the first URL recorded if any is.
\<close>

theorem crawl_records_clean_links:
  assumes "crawlLinks w startUrl baseUrl maxPages = Inr found"
  shows "(found = [] \<or> hd found = startUrl)
       \<and> (\<forall>x\<in>set found. x = startUrl
             \<or> (\<exists>b. w_url w baseUrl None = Some b \<and> clean_link w (host b) x))"
proof -
  from assms obtain b where b: "w_url w baseUrl None = Some b"
    and found: "found = crawl_loop w (host b) maxPages {} [startUrl] []"
    by (auto simp: crawlLinks_def split: option.splits)
  from crawl_loop_first [of w "host b" maxPages startUrl]
  have 1: "found = [] \<or> hd found = startUrl"
    unfolding found .
  from crawl_loop_clean_link [of w "host b" maxPages "{}" startUrl]
  have 2: "\<forall>x\<in>set found. x = startUrl
             \<or> (\<exists>b. w_url w baseUrl None = Some b \<and> clean_link w (host b) x)"
    unfolding found using b by blast
  from 1 2 show ?thesis ..
qed

text \<open>
  C6 on the site without sitemap: \<open>/about\<close> is recorded in its clean form although the
  link to it carries a query and a fragment.
\<close>

theorem crawl_records_clean_links_witness:
  "crawlLinks site_without_sitemap ''https://example.com/?q=1'' ''https://example.com'' 25
       = Inr [''https://example.com/?q=1'', ''https://example.com/about'', ''https://example.com/'']
   \<and> (\<exists>b. w_url site_without_sitemap ''https://example.com'' None = Some b
          \<and> clean_link site_without_sitemap (host b) ''https://example.com/about'')"
proof -
  have c: "crawlLinks site_without_sitemap ''https://example.com/?q=1'' ''https://example.com'' 25
       = Inr [''https://example.com/?q=1'', ''https://example.com/about'', ''https://example.com/'']"
    by code_simp
  from crawl_records_clean_links [OF c] show ?thesis
    using c by simp
qed

text \<open>
  C6 as stated (also the root URL is recorded in canonical form) fails on the site
  without sitemap for the root \<open>https://example.com/?q=1\<close>: it is recorded with its
  query, while its canonical form is \<open>https://example.com/\<close>.
\<close>

theorem crawl_start_url_counterexample:
  "crawlLinks site_without_sitemap ''https://example.com/?q=1'' ''https://example.com'' 25
       = Inr [''https://example.com/?q=1'', ''https://example.com/about'', ''https://example.com/'']
   \<and> map_option cleanUrl (w_url site_without_sitemap ''https://example.com/?q=1'' None)
       = Some ''https://example.com/''"
  by code_simp

text \<open>
  C5 on the site without sitemap with \<open>maxPages = 2\<close>.
\<close>

theorem discover_bounded_crawl_distinct_witness:
  "discoverPages site_without_sitemap ''https://example.com/?q=1'' 2
       = Some (Inr [''https://example.com/?q=1'', ''https://example.com/about''])
   \<and> length [''https://example.com/?q=1'', ''https://example.com/about''] \<le> nat 2
   \<and> crawlLinks site_without_sitemap ''https://example.com/?q=1'' ''https://example.com'' 2
       = Inr [''https://example.com/?q=1'', ''https://example.com/about'']
   \<and> distinct [''https://example.com/?q=1'', ''https://example.com/about'']"
proof -
  have d: "discoverPages site_without_sitemap ''https://example.com/?q=1'' 2
       = Some (Inr [''https://example.com/?q=1'', ''https://example.com/about''])"
    by code_simp
  have c: "crawlLinks site_without_sitemap ''https://example.com/?q=1'' ''https://example.com'' 2
       = Inr [''https://example.com/?q=1'', ''https://example.com/about'']"
    by code_simp
  from discover_bounded_crawl_distinct
    [of site_without_sitemap "''https://example.com/?q=1''" 2
        "[''https://example.com/?q=1'', ''https://example.com/about'']"
        "''https://example.com/?q=1''" "''https://example.com''"
        "[''https://example.com/?q=1'', ''https://example.com/about'']"]
  show ?thesis
    using d c by simp
qed

text \<open>
  C5 as stated (never the same URL twice) fails on a sitemap that lists one page twice:
  \<open>discoverPages\<close> returns the page twice.
\<close>

theorem discover_duplicates_counterexample:
  "discoverPages site_repeating_sitemap ''https://example.com'' 25
     = Some (Inr [''https://example.com/a'', ''https://example.com/a''])"
  by code_simp

text \<open>
  C3. The sitemap index at \<open>/sitemap.xml\<close> points to \<open>/sitemap-pages.xml\<close>, which is
  served with three \<open><url><loc>\<close> entries. \<open>trySitemap\<close> calls itself with that URL
  as base URL, since it does not end in \<open>/sitemap.xml\<close>, and so fetches
  \<open>/sitemap-pages.xml/sitemap.xml\<close>, which is not found: the sitemap strategy returns
  nothing, and \<open>discoverPages\<close> with \<open>maxPages = 10\<close> returns no URL instead of the three.
\<close>

theorem sub_sitemap_url_mangled:
  "sitemap_step site_with_index ''https://example.com'' 10
     = Follow ''https://example.com/sitemap-pages.xml''
   \<and> w_fetch site_with_index GET ''https://example.com/sitemap-pages.xml''
     = served 200 ''application/xml'' ''<urlset>p1,p2,p3</urlset>''
   \<and> regular_sitemap (w_load site_with_index True ''<urlset>p1,p2,p3</urlset>'') 10
     = [''https://example.com/p1'', ''https://example.com/p2'', ''https://example.com/p3'']
   \<and> w_fetch site_with_index GET ''https://example.com/sitemap-pages.xml/sitemap.xml'' = not_found
   \<and> trySitemap site_with_index ''https://example.com'' 10 = Some []
   \<and> discoverPages site_with_index ''https://example.com'' 10 = Some (Inr [])"
  by code_simp

end
